theory Spec2Isabelle
  imports Complex_Main
begin

section \<open>Data model\<close>

text \<open>
  The module under study is \<open>sklearn_hierarchical_classification/metrics.py\<close>:
  \<open>fill_ancestors\<close>, \<open>h_precision_score\<close>, \<open>h_recall_score\<close> and
  \<open>h_fbeta_score\<close>.  The nodes of the class hierarchy are the integer ids of the
  categories, which index the columns of the label matrices, and the stub root.
\<close>

text \<open>
  Modelled from the spec: the constant \<open>ROOT\<close>, which \<open>metrics.py\<close>
  imports from \<open>sklearn_hierarchical_classification.constants\<close>; that module is
  not among the source files available.  The specification describes the
  root as a reserved sentinel value, distinct from any real category id, that has no
  column in the label matrix.  It is therefore a constructor of its own, and using it as
  a column index is an index error.
\<close>

datatype node = ROOT | Node int

datatype error = IndexError | ValueError | ZeroDivisionError | OverflowError

text \<open>
  A \<open>networkx.DiGraph\<close>: the nodes in insertion order and the edges
  \<open>(parent, child)\<close> in insertion order.
\<close>

record digraph =
  nodes :: "node list"
  edges :: "(node \<times> node) list"

text \<open>
  A two-dimensional integer \<open>numpy.ndarray\<close> of shape
  \<open>(n_samples, n_classes)\<close>: the rows, each of length \<open>n_classes\<close>.
\<close>

record ndarray =
  n_classes :: nat
  cells :: "int list list"

definition n_samples :: "ndarray \<Rightarrow> nat" where
  "n_samples a = length (cells a)"

definition cell :: "ndarray \<Rightarrow> nat \<Rightarrow> nat \<Rightarrow> int" where
  "cell a i j = cells a ! i ! j"

definition valid_array :: "ndarray \<Rightarrow> bool" where
  "valid_array a = list_all (\<lambda>r. length r = n_classes a) (cells a)"

definition binary :: "ndarray \<Rightarrow> bool" where
  "binary a = list_all (list_all (\<lambda>x. x = 0 \<or> x = 1)) (cells a)"

text \<open>
  The objects a caller can observe: arrays and graphs live in a store and are passed
  by reference (an index into the store), so that in-place mutation and aliasing are
  visible.
\<close>

record store =
  arrays :: "ndarray list"
  graphs :: "digraph list"

section \<open>The graph library: breadth-first distances on the reversed view\<close>

text \<open>
  \<open>fill_ancestors\<close> calls two functions of the graph library (networkx):
  \<open>graph.reverse(copy=False)\<close> and \<open>all_pairs_shortest_path_length\<close>.
  The first is a read-only view of the graph whose successors are the predecessors of
  the underlying graph, in the order in which the edges into the node were added;
  creating the view changes nothing.  The second yields, for every node of the graph in
  node order, the node and the dictionary of the distances from it, filled by a
  breadth-first search level by level.  The code uses the keys of the dictionary in
  their insertion order, so the dictionary is the list of its items.
\<close>

definition reverse_adj :: "digraph \<Rightarrow> node \<Rightarrow> node list" where
  "reverse_adj G v = map fst (filter (\<lambda>e. snd e = v) (edges G))"

text \<open>
  One sweep over the neighbours of the current level: the nodes not seen before, in
  the order of their discovery.
\<close>

fun discover :: "node list \<Rightarrow> node list \<Rightarrow> node list" where
  "discover seen [] = []"
| "discover seen (w # ws) =
     (if w \<in> set seen then discover seen ws else w # discover (w # seen) ws)"

lemma set_discover: "set (discover seen ws) = set ws - set seen"
  by (induction seen ws rule: discover.induct) auto

lemma reverse_adj_subset: "set (reverse_adj G v) \<subseteq> fst ` set (edges G)"
  by (auto simp: reverse_adj_def)

text \<open>
  The level loop of the breadth-first search behind
  \<open>single_source_shortest_path_length\<close>: while the last level is not empty,
  the next level is what its neighbours newly discover; every discovered node is
  yielded with its level.
\<close>

function levels :: "digraph \<Rightarrow> nat \<Rightarrow> node list \<Rightarrow> node list \<Rightarrow> (node \<times> nat) list" where
  "levels G level seen nextlevel =
     (if nextlevel = [] then []
      else let found = discover seen (concat (map (reverse_adj G) nextlevel))
           in map (\<lambda>w. (w, Suc level)) found @ levels G (Suc level) (seen @ found) found)"
  by pat_completeness auto

termination
proof (relation "measures [\<lambda>(G, level, seen, nextlevel). card (fst ` set (edges G) - set seen),
                           \<lambda>(G, level, seen, nextlevel). length nextlevel]", goal_cases)
  case 1
  show ?case by simp
next
  case (2 G level seen nextlevel found)
  show ?case
  proof (cases "found = []")
    case True
    with 2 show ?thesis by simp
  next
    case False
    have sub: "set found \<subseteq> fst ` set (edges G) - set seen"
      using 2(2) reverse_adj_subset by (auto simp: set_discover)
    from False obtain w where w: "w \<in> set found" by (cases found) auto
    have "fst ` set (edges G) - set (seen @ found) \<subset> fst ` set (edges G) - set seen"
      using sub w by auto
    then have "card (fst ` set (edges G) - set (seen @ found)) < card (fst ` set (edges G) - set seen)"
      by (intro psubset_card_mono) auto
    then show ?thesis by simp
  qed
qed

definition single_source_shortest_path_length :: "digraph \<Rightarrow> node \<Rightarrow> (node \<times> nat) list" where
  "single_source_shortest_path_length G source = (source, 0) # levels G 0 [source] [source]"

definition all_pairs_shortest_path_length :: "digraph \<Rightarrow> (node \<times> (node \<times> nat) list) list" where
  "all_pairs_shortest_path_length G =
     map (\<lambda>n. (n, single_source_shortest_path_length G n)) (nodes G)"

section \<open>The array library: column reads and indexed assignment\<close>

text \<open>
  The operations of the array library (numpy) that the code uses.  An index into an
  axis of size \<open>m\<close>: integers from \<open>-m\<close> to \<open>m - 1\<close> are
  accepted, negative ones count from the end; anything else is an index error.
\<close>

fun column_index :: "nat \<Rightarrow> node \<Rightarrow> error + nat" where
  "column_index m ROOT = Inl IndexError"
| "column_index m (Node k) =
     (if 0 \<le> k \<and> k < int m then Inr (nat k)
      else if - int m \<le> k \<and> k < 0 then Inr (nat (k + int m))
      else Inl IndexError)"

fun column_indices :: "nat \<Rightarrow> node list \<Rightarrow> error + nat list" where
  "column_indices m [] = Inr []"
| "column_indices m (a # as) =
     (case column_index m a of
        Inl e \<Rightarrow> Inl e
      | Inr j \<Rightarrow> (case column_indices m as of Inl e \<Rightarrow> Inl e | Inr js \<Rightarrow> Inr (j # js)))"

text \<open>\<open>np.where(y[:, target] > 0)[0]\<close>: the rows whose entry in the column is positive.\<close>

definition where_positive :: "ndarray \<Rightarrow> node \<Rightarrow> error + nat list" where
  "where_positive y target =
     (case column_index (n_classes y) target of
        Inl e \<Rightarrow> Inl e
      | Inr j \<Rightarrow> Inr (filter (\<lambda>i. cell y i j > 0) [0..<n_samples y]))"

text \<open>
  \<open>y_[tuple(np.meshgrid(ix_rows, ancestors))] = 1\<close>.  The index arrays built by
  \<open>meshgrid\<close> must be integer arrays: an empty list of ancestors (a float array)
  and a list that holds the root sentinel are refused.  Integer index arrays without
  elements select nothing; otherwise every column must be in range, and every selected
  cell becomes 1.
\<close>

definition assign_ones :: "ndarray \<Rightarrow> nat list \<Rightarrow> node list \<Rightarrow> error + ndarray" where
  "assign_ones y' ix_rows ancestors =
     (if ancestors = [] \<or> ROOT \<in> set ancestors then Inl IndexError
      else if ix_rows = [] then Inr y'
      else case column_indices (n_classes y') ancestors of
             Inl e \<Rightarrow> Inl e
           | Inr js \<Rightarrow>
               Inr (y'\<lparr>cells :=
                     map (\<lambda>i. map (\<lambda>j. if i \<in> set ix_rows \<and> j \<in> set js then 1 else cell y' i j)
                                  [0..<n_classes y'])
                         [0..<n_samples y']\<rparr>))"

text \<open>\<open>np.count_nonzero(a)\<close>.\<close>

definition count_nonzero :: "ndarray \<Rightarrow> nat" where
  "count_nonzero a = length (filter (\<lambda>x. x \<noteq> 0) (concat (cells a)))"

text \<open>
  \<open>len(np.where((a != 0) & (b != 0))[0])\<close>.  The element-wise conjunction
  broadcasts: along each axis the sizes must agree or one of them must be 1, else the
  operands cannot be combined.
\<close>

definition broadcastable :: "nat \<Rightarrow> nat \<Rightarrow> bool" where
  "broadcastable n1 n2 = (n1 = n2 \<or> n1 = 1 \<or> n2 = 1)"

definition broadcast_dim :: "nat \<Rightarrow> nat \<Rightarrow> nat" where
  "broadcast_dim n1 n2 = (if n1 = 1 then n2 else n1)"

definition broadcast_cell :: "ndarray \<Rightarrow> nat \<Rightarrow> nat \<Rightarrow> int" where
  "broadcast_cell a i j =
     cell a (if n_samples a = 1 then 0 else i) (if n_classes a = 1 then 0 else j)"

definition count_both_nonzero :: "ndarray \<Rightarrow> ndarray \<Rightarrow> error + nat" where
  "count_both_nonzero a b =
     (if broadcastable (n_samples a) (n_samples b) \<and> broadcastable (n_classes a) (n_classes b)
      then Inr (length (filter (\<lambda>(i, j). broadcast_cell a i j \<noteq> 0 \<and> broadcast_cell b i j \<noteq> 0)
                  (List.product [0..<broadcast_dim (n_samples a) (n_samples b)]
                                [0..<broadcast_dim (n_classes a) (n_classes b)])))
      else Inl ValueError)"

section \<open>Ancestor filling\<close>

text \<open>
  The loop of \<open>fill_ancestors\<close> over the pairs \<open>(target, distances)\<close>.
  \<open>y\<close> and \<open>y_\<close> are references into the store: the rows are read from
  \<open>y\<close>, the cells are written to \<open>y_\<close>.  An exception ends the loop and
  leaves the store as it is at that point.
\<close>

fun fill_loop :: "nat \<Rightarrow> nat \<Rightarrow> store \<Rightarrow> (node \<times> (node \<times> nat) list) list \<Rightarrow> store \<times> error option" where
  "fill_loop y y' s [] = (s, None)"
| "fill_loop y y' s ((target, distances) # paths) =
     (if target = ROOT then fill_loop y y' s paths
      else case where_positive (arrays s ! y) target of
             Inl e \<Rightarrow> (s, Some e)
           | Inr ix_rows \<Rightarrow>
               (case assign_ones (arrays s ! y') ix_rows (butlast (map fst distances)) of
                  Inl e \<Rightarrow> (s, Some e)
                | Inr a \<Rightarrow> fill_loop y y' (s\<lparr>arrays := (arrays s)[y' := a]\<rparr>) paths))"

text \<open>
  \<open>fill_ancestors(y, graph, copy)\<close>.  With \<open>copy\<close> a new array is
  allocated for \<open>y_\<close>; without it \<open>y_\<close> is \<open>y\<close> itself.
  The paths are computed on the reversed view of the graph; the closing
  \<open>graph.reverse(copy=False)\<close> only creates another view.
\<close>

definition fill_ancestors :: "store \<Rightarrow> nat \<Rightarrow> nat \<Rightarrow> bool \<Rightarrow> store \<times> (error + nat)" where
  "fill_ancestors s y graph copy =
     (let s1 = (if copy then s\<lparr>arrays := arrays s @ [arrays s ! y]\<rparr> else s);
          y' = (if copy then length (arrays s) else y);
          paths = all_pairs_shortest_path_length (graphs s1 ! graph);
          (s2, exc) = fill_loop y y' s1 paths
      in case exc of Some e \<Rightarrow> (s2, Inl e) | None \<Rightarrow> (s2, Inr y'))"

section \<open>Hierarchical precision, recall and F-beta\<close>

text \<open>
  The quotients are quotients of Python numbers: a zero denominator raises.  The scores
  are modelled as real numbers.
\<close>

definition h_precision_score :: "store \<Rightarrow> nat \<Rightarrow> nat \<Rightarrow> nat \<Rightarrow> store \<times> (error + real)" where
  "h_precision_score s y_true y_pred class_hierarchy =
     (case fill_ancestors s y_true class_hierarchy True of
        (s1, Inl e) \<Rightarrow> (s1, Inl e)
      | (s1, Inr y_true') \<Rightarrow>
          (case fill_ancestors s1 y_pred class_hierarchy True of
             (s2, Inl e) \<Rightarrow> (s2, Inl e)
           | (s2, Inr y_pred') \<Rightarrow>
               (case count_both_nonzero (arrays s2 ! y_true') (arrays s2 ! y_pred') of
                  Inl e \<Rightarrow> (s2, Inl e)
                | Inr true_positives \<Rightarrow>
                    (let all_results = count_nonzero (arrays s2 ! y_pred')
                     in if all_results = 0 then (s2, Inl ZeroDivisionError)
                        else (s2, Inr (real true_positives / real all_results))))))"

definition h_recall_score :: "store \<Rightarrow> nat \<Rightarrow> nat \<Rightarrow> nat \<Rightarrow> store \<times> (error + real)" where
  "h_recall_score s y_true y_pred class_hierarchy =
     (case fill_ancestors s y_true class_hierarchy True of
        (s1, Inl e) \<Rightarrow> (s1, Inl e)
      | (s1, Inr y_true') \<Rightarrow>
          (case fill_ancestors s1 y_pred class_hierarchy True of
             (s2, Inl e) \<Rightarrow> (s2, Inl e)
           | (s2, Inr y_pred') \<Rightarrow>
               (case count_both_nonzero (arrays s2 ! y_true') (arrays s2 ! y_pred') of
                  Inl e \<Rightarrow> (s2, Inl e)
                | Inr true_positives \<Rightarrow>
                    (let all_positives = count_nonzero (arrays s2 ! y_true')
                     in if all_positives = 0 then (s2, Inl ZeroDivisionError)
                        else (s2, Inr (real true_positives / real all_positives))))))"

text \<open>
  The largest finite float, \<open>(2 - 2^-52) * 2^1023\<close>.  \<open>beta\<close> is a
  Python float, and the float power \<open>beta ** 2.\<close> raises when its result is
  out of range, that is when the square of \<open>beta\<close> is larger than this number
  (\<open>beta\<close> beyond about \<open>1.34e154\<close> in absolute value; the square
  of a float is either at most this number or at least \<open>2^1024\<close>).  The sum,
  the products and the quotient of the formula do not raise on overflow.
\<close>

definition float_max :: real where
  "float_max = 2 ^ 1024 - 2 ^ 971"

text \<open>
  \<open>h_fbeta_score\<close>: the return expression is evaluated after both scores are
  there, and its first operation is the power in the numerator.
\<close>

definition h_fbeta_score :: "store \<Rightarrow> nat \<Rightarrow> nat \<Rightarrow> nat \<Rightarrow> real \<Rightarrow> store \<times> (error + real)" where
  "h_fbeta_score s y_true y_pred class_hierarchy beta =
     (case h_precision_score s y_true y_pred class_hierarchy of
        (s1, Inl e) \<Rightarrow> (s1, Inl e)
      | (s1, Inr hP) \<Rightarrow>
          (case h_recall_score s1 y_true y_pred class_hierarchy of
             (s2, Inl e) \<Rightarrow> (s2, Inl e)
           | (s2, Inr hR) \<Rightarrow>
               (if float_max < beta\<^sup>2 then (s2, Inl OverflowError)
                else if beta\<^sup>2 * hP + hR = 0 then (s2, Inl ZeroDivisionError)
                else (s2, Inr ((1 + beta\<^sup>2) * hP * hR / (beta\<^sup>2 * hP + hR))))))"

section \<open>Preconditions of the core\<close>

text \<open>
  The relation "has parent": \<open>(c, p)\<close> when the graph has the edge from
  \<open>p\<close> to \<open>c\<close>.
\<close>

definition parent_rel :: "digraph \<Rightarrow> (node \<times> node) set" where
  "parent_rel G = {(c, p). (p, c) \<in> set (edges G)}"

text \<open>
  A rooted hierarchy: the edges join nodes of the graph, and every node other than the
  root reaches the root along parent edges.
\<close>

definition hierarchy :: "digraph \<Rightarrow> bool" where
  "hierarchy G =
     ((\<forall>(p, c)\<in>set (edges G). p \<in> set (nodes G) \<and> c \<in> set (nodes G))
      \<and> (\<forall>v\<in>set (nodes G). v \<noteq> ROOT \<longrightarrow> (v, ROOT) \<in> (parent_rel G)\<^sup>*))"

text \<open>
  A tree-shaped hierarchy: moreover the root has no parent and every other node has
  exactly one.
\<close>

definition tree_hierarchy :: "digraph \<Rightarrow> bool" where
  "tree_hierarchy G =
     (hierarchy G \<and> reverse_adj G ROOT = []
      \<and> (\<forall>v\<in>set (nodes G). v \<noteq> ROOT \<longrightarrow> length (reverse_adj G v) = 1))"

text \<open>
  Every non-root node of the graph has a column of the matrix: its id is an index from
  0 to \<open>n_classes - 1\<close>.
\<close>

definition has_columns :: "digraph \<Rightarrow> ndarray \<Rightarrow> bool" where
  "has_columns G y =
     list_all (\<lambda>v. case v of ROOT \<Rightarrow> True | Node k \<Rightarrow> 0 \<le> k \<and> k < int (n_classes y)) (nodes G)"

section \<open>The loop as a function of the array values\<close>

text \<open>
  These definitions serve the proofs only.  The nodes that a target reaches on the
  reversed view, in the order of the distance dictionary:
\<close>

definition reached :: "digraph \<Rightarrow> node \<Rightarrow> node list" where
  "reached G v = map fst (single_source_shortest_path_length G v)"

text \<open>
  The loop when \<open>y'\<close> is a fresh copy: the rows are read from the unchanged
  \<open>y\<close>, the writes go to the accumulated copy.  It returns the copy as it is
  when the loop ends, and the exception if one ended it.
\<close>

fun fill_rows :: "ndarray \<Rightarrow> ndarray \<Rightarrow> (node \<times> (node \<times> nat) list) list \<Rightarrow> ndarray \<times> error option" where
  "fill_rows y acc [] = (acc, None)"
| "fill_rows y acc ((target, distances) # paths) =
     (if target = ROOT then fill_rows y acc paths
      else case where_positive y target of
             Inl e \<Rightarrow> (acc, Some e)
           | Inr ix_rows \<Rightarrow>
               (case assign_ones acc ix_rows (butlast (map fst distances)) of
                  Inl e \<Rightarrow> (acc, Some e)
                | Inr a \<Rightarrow> fill_rows y a paths))"

definition filled :: "ndarray \<Rightarrow> digraph \<Rightarrow> ndarray \<times> error option" where
  "filled a G = fill_rows a a (all_pairs_shortest_path_length G)"

text \<open>The cells that some step of the loop sets to 1.\<close>

definition marks :: "ndarray \<Rightarrow> (node \<times> (node \<times> nat) list) list \<Rightarrow> nat \<Rightarrow> nat \<Rightarrow> bool" where
  "marks y paths i j =
     (\<exists>(t, d)\<in>set paths. t \<noteq> ROOT
        \<and> (\<exists>jt. column_index (n_classes y) t = Inr jt \<and> 0 < cell y i jt)
        \<and> (\<exists>a\<in>set (butlast (map fst d)). column_index (n_classes y) a = Inr j))"

text \<open>The second array has the shape of the first, and differs from it only by cells set to 1.\<close>

definition raised :: "ndarray \<Rightarrow> ndarray \<Rightarrow> bool" where
  "raised a b = (n_classes b = n_classes a \<and> n_samples b = n_samples a \<and>
     (\<forall>i<n_samples a. \<forall>j<n_classes a. cell b i j = cell a i j \<or> cell b i j = 1))"

text \<open>The quotients of the two scores, from the two filled arrays.\<close>

definition precision_value :: "ndarray \<Rightarrow> ndarray \<Rightarrow> error + real" where
  "precision_value t p =
     (case count_both_nonzero t p of
        Inl e \<Rightarrow> Inl e
      | Inr tp \<Rightarrow> if count_nonzero p = 0 then Inl ZeroDivisionError
                  else Inr (real tp / real (count_nonzero p)))"

definition recall_value :: "ndarray \<Rightarrow> ndarray \<Rightarrow> error + real" where
  "recall_value t p =
     (case count_both_nonzero t p of
        Inl e \<Rightarrow> Inl e
      | Inr tp \<Rightarrow> if count_nonzero t = 0 then Inl ZeroDivisionError
                  else Inr (real tp / real (count_nonzero t)))"

definition on_filled :: "(ndarray \<Rightarrow> ndarray \<Rightarrow> error + real) \<Rightarrow> ndarray \<times> error option \<Rightarrow> ndarray \<times> error option \<Rightarrow> error + real" where
  "on_filled f t p =
     (case snd t of Some e \<Rightarrow> Inl e
      | None \<Rightarrow> (case snd p of Some e \<Rightarrow> Inl e | None \<Rightarrow> f (fst t) (fst p)))"

text \<open>
  What a call that returns a reference leaves to its caller: the exception, or the array
  behind the reference.
\<close>

definition outcome :: "store \<times> (error + nat) \<Rightarrow> error + ndarray" where
  "outcome r = (case snd r of Inl e \<Rightarrow> Inl e | Inr y' \<Rightarrow> Inr (arrays (fst r) ! y'))"

section \<open>Example hierarchies\<close>

text \<open>The chain \<open>Root -> A -> B\<close> with \<open>A = 0\<close> and \<open>B = 1\<close>.\<close>

definition chain_hierarchy :: digraph where
  "chain_hierarchy = \<lparr>nodes = [ROOT, Node 0, Node 1], edges = [(ROOT, Node 0), (Node 0, Node 1)]\<rparr>"

text \<open>
  One sample with true label set \<open>{B}\<close> (array 0) and predicted label set
  \<open>{A}\<close> (array 1), and the chain as graph 0.
\<close>

definition chain_store :: store where
  "chain_store =
     \<lparr>arrays = [\<lparr>n_classes = 2, cells = [[0, 1]]\<rparr>, \<lparr>n_classes = 2, cells = [[1, 0]]\<rparr>],
      graphs = [chain_hierarchy]\<rparr>"

text \<open>
  A hierarchy that is a directed acyclic graph but not a tree:
  \<open>Root -> A -> B -> C\<close> and \<open>Root -> C\<close>, with \<open>A = 0\<close>,
  \<open>B = 1\<close>, \<open>C = 2\<close>.  Class \<open>C\<close> has the two parents \<open>B\<close>
  and the root.
\<close>

definition shortcut_hierarchy :: digraph where
  "shortcut_hierarchy =
     \<lparr>nodes = [ROOT, Node 0, Node 1, Node 2],
      edges = [(ROOT, Node 0), (Node 0, Node 1), (Node 1, Node 2), (ROOT, Node 2)]\<rparr>"

text \<open>One sample labelled \<open>{C}\<close>, and the graph above.\<close>

definition shortcut_store :: store where
  "shortcut_store = \<lparr>arrays = [\<lparr>n_classes = 3, cells = [[0, 0, 1]]\<rparr>], graphs = [shortcut_hierarchy]\<rparr>"

text \<open>
  The hierarchy \<open>Root -> A -> B\<close>, \<open>Root -> C\<close> with one sample whose
  true label set is \<open>{B}\<close> (array 0) and whose predicted label set is
  \<open>{C}\<close> (array 1).
\<close>

definition fork_hierarchy :: digraph where
  "fork_hierarchy =
     \<lparr>nodes = [ROOT, Node 0, Node 1, Node 2],
      edges = [(ROOT, Node 0), (Node 0, Node 1), (ROOT, Node 2)]\<rparr>"

definition fork_store :: store where
  "fork_store =
     \<lparr>arrays = [\<lparr>n_classes = 3, cells = [[0, 1, 0]]\<rparr>, \<lparr>n_classes = 3, cells = [[0, 0, 1]]\<rparr>],
      graphs = [fork_hierarchy]\<rparr>"

text \<open>
  A hierarchy with two parents at the same depth: \<open>Root -> A -> C\<close> and
  \<open>Root -> B -> C\<close>, with \<open>A = 0\<close>, \<open>B = 1\<close>,
  \<open>C = 2\<close>, and one sample labelled \<open>{C}\<close>.
\<close>

definition diamond_hierarchy :: digraph where
  "diamond_hierarchy =
     \<lparr>nodes = [ROOT, Node 0, Node 1, Node 2],
      edges = [(ROOT, Node 0), (ROOT, Node 1), (Node 0, Node 2), (Node 1, Node 2)]\<rparr>"

definition diamond_store :: store where
  "diamond_store = \<lparr>arrays = [\<lparr>n_classes = 3, cells = [[0, 0, 1]]\<rparr>], graphs = [diamond_hierarchy]\<rparr>"

text \<open>
  The chain with one sample whose true label set is \<open>{B}\<close> (array 0) and whose
  predicted label set is empty (array 1).
\<close>

definition unlabelled_store :: store where
  "unlabelled_store =
     \<lparr>arrays = [\<lparr>n_classes = 2, cells = [[0, 1]]\<rparr>, \<lparr>n_classes = 2, cells = [[0, 0]]\<rparr>],
      graphs = [chain_hierarchy]\<rparr>"

section \<open>The search enumerates the reachable nodes\<close>

declare levels.simps [simp del]

lemma set_reverse_adj: "set (reverse_adj G v) = parent_rel G `` {v}"
  by (auto simp: reverse_adj_def parent_rel_def image_iff)

lemma distinct_discover: "distinct (discover seen ws)"
  by (induction seen ws rule: discover.induct) (auto simp: set_discover)

lemma levels_unfold:
  "levels G level seen nextlevel =
     (if nextlevel = [] then []
      else map (\<lambda>w. (w, Suc level)) (discover seen (concat (map (reverse_adj G) nextlevel)))
           @ levels G (Suc level) (seen @ discover seen (concat (map (reverse_adj G) nextlevel)))
               (discover seen (concat (map (reverse_adj G) nextlevel))))"
  by (subst levels.simps) (simp add: Let_def)

lemma levels_Nil: "levels G level seen [] = []"
  by (subst levels_unfold) simp

lemma levels_keys_set:
  "set nextlevel \<subseteq> set seen \<Longrightarrow> parent_rel G `` (set seen - set nextlevel) \<subseteq> set seen \<Longrightarrow>
   set seen \<union> fst ` set (levels G level seen nextlevel) = (parent_rel G)\<^sup>* `` set seen"
proof (induction G level seen nextlevel rule: levels.induct)
  case (1 G level seen nextlevel)
  let ?R = "parent_rel G"
  show ?case
  proof (cases "nextlevel = []")
    case True
    with 1(3) have "?R `` set seen \<subseteq> set seen" by simp
    then have "?R\<^sup>* `` set seen = set seen" by (rule Image_closed_trancl)
    with True show ?thesis by (subst levels_unfold) simp
  next
    case False
    define found where "found = discover seen (concat (map (reverse_adj G) nextlevel))"
    have f: "set found = ?R `` set nextlevel - set seen"
      by (auto simp: found_def set_discover set_reverse_adj)
    have a: "set found \<subseteq> set (seen @ found)" by simp
    have "set (seen @ found) - set found = set seen" using f by auto
    moreover have "?R `` set seen \<subseteq> set (seen @ found)"
    proof
      fix p assume "p \<in> ?R `` set seen"
      then obtain c where c: "c \<in> set seen" "(c, p) \<in> ?R" by auto
      show "p \<in> set (seen @ found)"
      proof (cases "c \<in> set nextlevel")
        case True
        with c f show ?thesis by auto
      next
        case False
        with c 1(3) show ?thesis by auto
      qed
    qed
    ultimately have b: "?R `` (set (seen @ found) - set found) \<subseteq> set (seen @ found)" by simp
    have ih: "set (seen @ found) \<union> fst ` set (levels G (Suc level) (seen @ found) found)
          = ?R\<^sup>* `` set (seen @ found)"
      using 1(1)[OF False found_def a b] .
    have "set found \<subseteq> ?R\<^sup>* `` set seen" using f 1(2) by auto
    then have "?R\<^sup>* `` set (seen @ found) = ?R\<^sup>* `` set seen"
      by (auto intro: rtrancl_trans)
    with ih have "set seen \<union> (set found \<union> fst ` set (levels G (Suc level) (seen @ found) found))
          = ?R\<^sup>* `` set seen" by (simp add: Un_assoc)
    moreover have "fst ` set (levels G level seen nextlevel)
        = set found \<union> fst ` set (levels G (Suc level) (seen @ found) found)"
      using False by (subst levels_unfold) (auto simp: found_def image_Un image_image)
    ultimately show ?thesis by simp
  qed
qed

lemma levels_keys_distinct:
  "distinct (map fst (levels G level seen nextlevel))
   \<and> set (map fst (levels G level seen nextlevel)) \<inter> set seen = {}"
proof (induction G level seen nextlevel rule: levels.induct)
  case (1 G level seen nextlevel)
  show ?case
  proof (cases "nextlevel = []")
    case True
    then show ?thesis by (subst (1 2) levels_unfold) simp
  next
    case False
    define found where "found = discover seen (concat (map (reverse_adj G) nextlevel))"
    have ih: "distinct (map fst (levels G (Suc level) (seen @ found) found))
      \<and> set (map fst (levels G (Suc level) (seen @ found) found)) \<inter> set (seen @ found) = {}"
      using 1[OF False found_def] .
    have f: "distinct found" "set found \<inter> set seen = {}"
      by (auto simp: found_def distinct_discover set_discover)
    have eq: "map fst (levels G level seen nextlevel)
        = found @ map fst (levels G (Suc level) (seen @ found) found)"
      using False by (subst levels_unfold) (simp add: found_def comp_def)
    show ?thesis unfolding eq using ih f by auto
  qed
qed

lemma set_reached: "set (reached G v) = (parent_rel G)\<^sup>* `` {v}"
proof -
  have "set [v] \<union> fst ` set (levels G 0 [v] [v]) = (parent_rel G)\<^sup>* `` set [v]"
    by (rule levels_keys_set) auto
  then show ?thesis by (simp add: reached_def single_source_shortest_path_length_def)
qed

lemma distinct_reached: "distinct (reached G v)"
  using levels_keys_distinct[of G 0 "[v]" "[v]"]
  by (auto simp: reached_def single_source_shortest_path_length_def)

lemma reached_nonempty: "reached G v \<noteq> []"
  by (simp add: reached_def single_source_shortest_path_length_def)

lemma butlast_without_root:
  assumes "(v, ROOT) \<in> (parent_rel G)\<^sup>*" "ROOT \<notin> set (butlast (reached G v))"
  shows "set (butlast (reached G v)) = (parent_rel G)\<^sup>* `` {v} - {ROOT}"
proof -
  have in_keys: "ROOT \<in> set (reached G v)" using assms(1) by (simp add: set_reached)
  have split: "reached G v = butlast (reached G v) @ [last (reached G v)]"
    using reached_nonempty by simp
  have "set (reached G v) = set (butlast (reached G v)) \<union> {last (reached G v)}"
    by (subst split) simp
  with in_keys assms(2) have l: "last (reached G v) = ROOT" by auto
  have "distinct (butlast (reached G v) @ [last (reached G v)])"
    using distinct_reached[of G v] split by simp
  then have "ROOT \<notin> set (butlast (reached G v))" using l by simp
  have "set (reached G v) = set (butlast (reached G v)) \<union> {ROOT}"
    using \<open>set (reached G v) = set (butlast (reached G v)) \<union> {last (reached G v)}\<close> l by simp
  then show ?thesis using assms(2) set_reached[of G v] by auto
qed

section \<open>Facts about the array operations\<close>

lemma column_indices_set:
  "column_indices m as = Inr js \<Longrightarrow> set js = {j. \<exists>t\<in>set as. column_index m t = Inr j}"
  by (induction as arbitrary: js) (auto split: sum.splits)

lemma column_indices_ok:
  "(\<forall>a\<in>set as. \<exists>j. column_index m a = Inr j) \<Longrightarrow> \<exists>js. column_indices m as = Inr js"
  by (induction as) (auto split: sum.splits)

lemma where_positive_set:
  "where_positive y t = Inr rows \<Longrightarrow>
   \<exists>jt. column_index (n_classes y) t = Inr jt \<and> set rows = {i. i < n_samples y \<and> 0 < cell y i jt}"
  by (auto simp: where_positive_def split: sum.splits)

lemma assign_ones_n_classes: "assign_ones a r anc = Inr b \<Longrightarrow> n_classes b = n_classes a"
  by (auto simp: assign_ones_def split: if_splits sum.splits)

lemma assign_ones_n_samples: "assign_ones a r anc = Inr b \<Longrightarrow> n_samples b = n_samples a"
  by (auto simp: assign_ones_def n_samples_def split: if_splits sum.splits)

lemma assign_ones_cell:
  assumes "assign_ones a r anc = Inr b" "i < n_samples a" "j < n_classes a"
  shows "cell b i j =
     (if i \<in> set r \<and> (\<exists>t\<in>set anc. column_index (n_classes a) t = Inr j) then 1 else cell a i j)"
proof (cases "r = []")
  case True
  with assms show ?thesis by (auto simp: assign_ones_def split: if_splits)
next
  case False
  with assms(1) obtain js where js: "column_indices (n_classes a) anc = Inr js"
    and b: "b = a\<lparr>cells := map (\<lambda>i. map (\<lambda>j. if i \<in> set r \<and> j \<in> set js then 1 else cell a i j)
                                  [0..<n_classes a]) [0..<n_samples a]\<rparr>"
    by (auto simp: assign_ones_def split: if_splits sum.splits)
  have "cell b i j = (if i \<in> set r \<and> j \<in> set js then 1 else cell a i j)"
    using assms(2,3) by (simp add: b cell_def)
  then show ?thesis using column_indices_set[OF js] by auto
qed

lemma assign_ones_valid: "valid_array a \<Longrightarrow> assign_ones a r anc = Inr b \<Longrightarrow> valid_array b"
  by (auto simp: assign_ones_def valid_array_def list_all_iff split: if_splits sum.splits)

lemma raised_refl: "raised a a"
  by (simp add: raised_def)

lemma raised_trans: "raised a b \<Longrightarrow> raised b c \<Longrightarrow> raised a c"
  unfolding raised_def by (metis)

lemma assign_ones_raised: "assign_ones a r anc = Inr b \<Longrightarrow> raised a b"
  unfolding raised_def
  using assign_ones_n_classes assign_ones_n_samples assign_ones_cell by presburger

lemma binary_cell:
  "binary a \<Longrightarrow> valid_array a \<Longrightarrow> i < n_samples a \<Longrightarrow> j < n_classes a \<Longrightarrow> cell a i j = 0 \<or> cell a i j = 1"
proof -
  assume b: "binary a" and v: "valid_array a" and i: "i < n_samples a" and j: "j < n_classes a"
  have row: "cells a ! i \<in> set (cells a)" using i by (simp add: n_samples_def)
  then have "length (cells a ! i) = n_classes a" using v by (simp add: valid_array_def list_all_iff)
  then have "cells a ! i ! j \<in> set (cells a ! i)" using j by simp
  with row b show ?thesis by (auto simp: binary_def list_all_iff cell_def)
qed

lemma ndarray_eqI:
  assumes "valid_array a" "valid_array b" "n_classes a = n_classes b" "n_samples a = n_samples b"
    and "\<And>i j. i < n_samples a \<Longrightarrow> j < n_classes a \<Longrightarrow> cell a i j = cell b i j"
  shows "a = b"
proof -
  have "cells a = cells b"
  proof (rule nth_equalityI)
    show "length (cells a) = length (cells b)" using assms(4) by (simp add: n_samples_def)
  next
    fix i assume i: "i < length (cells a)"
    then have la: "length (cells a ! i) = n_classes a"
      using assms(1) by (simp add: valid_array_def list_all_iff)
    from i assms(4) have "i < length (cells b)" by (simp add: n_samples_def)
    then have lb: "length (cells b ! i) = n_classes b"
      using assms(2) by (simp add: valid_array_def list_all_iff)
    show "cells a ! i = cells b ! i"
    proof (rule nth_equalityI)
      show "length (cells a ! i) = length (cells b ! i)" using la lb assms(3) by simp
    next
      fix j assume "j < length (cells a ! i)"
      with la i assms(5)[of i j] show "cells a ! i ! j = cells b ! i ! j"
        by (simp add: cell_def n_samples_def)
    qed
  qed
  with assms(3) show ?thesis by simp
qed

lemma column_index_error: "column_index m t = Inl e \<Longrightarrow> e = IndexError"
  by (cases t) (auto split: if_splits)

lemma column_indices_error: "column_indices m as = Inl e \<Longrightarrow> e = IndexError"
  by (induction as) (auto split: sum.splits dest: column_index_error)

lemma where_positive_error: "where_positive y t = Inl e \<Longrightarrow> e = IndexError"
  by (auto simp: where_positive_def split: sum.splits dest: column_index_error)

lemma assign_ones_error: "assign_ones a r anc = Inl e \<Longrightarrow> e = IndexError"
  by (auto simp: assign_ones_def split: if_splits sum.splits dest: column_indices_error)

lemma broadcast_dim_sym: "broadcastable n1 n2 \<Longrightarrow> broadcast_dim n1 n2 = broadcast_dim n2 n1"
  by (auto simp: broadcastable_def broadcast_dim_def)

lemma broadcastable_sym: "broadcastable n1 n2 = broadcastable n2 n1"
  by (auto simp: broadcastable_def)

lemma count_both_nonzero_sym: "count_both_nonzero a b = count_both_nonzero b a"
proof (cases "broadcastable (n_samples a) (n_samples b) \<and> broadcastable (n_classes a) (n_classes b)")
  case True
  then have d: "broadcast_dim (n_samples a) (n_samples b) = broadcast_dim (n_samples b) (n_samples a)"
    "broadcast_dim (n_classes a) (n_classes b) = broadcast_dim (n_classes b) (n_classes a)"
    by (auto intro: broadcast_dim_sym)
  have p: "(\<lambda>(i, j). broadcast_cell a i j \<noteq> 0 \<and> broadcast_cell b i j \<noteq> 0)
         = (\<lambda>(i, j). broadcast_cell b i j \<noteq> 0 \<and> broadcast_cell a i j \<noteq> 0)"
    by auto
  from True have "broadcastable (n_samples b) (n_samples a) \<and> broadcastable (n_classes b) (n_classes a)"
    using broadcastable_sym by blast
  with True show ?thesis by (simp add: count_both_nonzero_def d p)
next
  case False
  then have "\<not> (broadcastable (n_samples b) (n_samples a) \<and> broadcastable (n_classes b) (n_classes a))"
    using broadcastable_sym by blast
  with False show ?thesis by (simp add: count_both_nonzero_def)
qed

section \<open>Facts about the loop\<close>

lemma fill_loop_graphs: "graphs (fst (fill_loop y y' s paths)) = graphs s"
  by (induction y y' s paths rule: fill_loop.induct) (auto split: sum.splits)

lemma fill_loop_store: "\<exists>b. fst (fill_loop y y' s paths) = s\<lparr>arrays := (arrays s)[y' := b]\<rparr>"
proof (induction y y' s paths rule: fill_loop.induct)
  case (1 y y' s)
  have "s = s\<lparr>arrays := (arrays s)[y' := arrays s ! y']\<rparr>" by simp
  then show ?case by (metis fill_loop.simps(1) fst_conv)
next
  case (2 y y' s target distances paths)
  have triv: "\<exists>b. s = s\<lparr>arrays := (arrays s)[y' := b]\<rparr>"
    by (rule exI[of _ "arrays s ! y'"]) simp
  show ?case
  proof (cases "target = ROOT")
    case True
    with 2 show ?thesis by simp
  next
    case nr: False
    show ?thesis
    proof (cases "where_positive (arrays s ! y) target")
      case (Inl e)
      with nr triv show ?thesis by simp
    next
      case wp: (Inr ix_rows)
      show ?thesis
      proof (cases "assign_ones (arrays s ! y') ix_rows (butlast (map fst distances))")
        case (Inl e)
        with nr wp triv show ?thesis by simp
      next
        case (Inr a)
        from 2(2)[OF nr wp Inr] obtain b where
          "fst (fill_loop y y' (s\<lparr>arrays := (arrays s)[y' := a]\<rparr>) paths)
             = s\<lparr>arrays := (arrays s)[y' := a, y' := b]\<rparr>" by auto
        then have "fst (fill_loop y y' (s\<lparr>arrays := (arrays s)[y' := a]\<rparr>) paths)
             = s\<lparr>arrays := (arrays s)[y' := b]\<rparr>" by simp
        with nr wp Inr show ?thesis by auto
      qed
    qed
  qed
qed

lemma fill_loop_raised:
  "y' < length (arrays s) \<Longrightarrow> raised (arrays s ! y') (arrays (fst (fill_loop y y' s paths)) ! y')"
proof (induction y y' s paths rule: fill_loop.induct)
  case (1 y y' s)
  then show ?case by (simp add: raised_refl)
next
  case (2 y y' s target distances paths)
  show ?case
  proof (cases "target = ROOT")
    case True
    with 2 show ?thesis by simp
  next
    case nr: False
    show ?thesis
    proof (cases "where_positive (arrays s ! y) target")
      case (Inl e)
      with nr show ?thesis by (simp add: raised_refl)
    next
      case wp: (Inr ix_rows)
      show ?thesis
      proof (cases "assign_ones (arrays s ! y') ix_rows (butlast (map fst distances))")
        case (Inl e)
        with nr wp show ?thesis by (simp add: raised_refl)
      next
        case (Inr a)
        have "raised (arrays s ! y') a" using Inr by (rule assign_ones_raised)
        moreover have "raised a (arrays (fst (fill_loop y y' (s\<lparr>arrays := (arrays s)[y' := a]\<rparr>) paths)) ! y')"
          using 2(2)[OF nr wp Inr] 2(3) by simp
        ultimately show ?thesis using nr wp Inr by (simp add: raised_trans)
      qed
    qed
  qed
qed

lemma fill_loop_copy:
  "y \<noteq> y' \<Longrightarrow> y' < length (arrays s) \<Longrightarrow>
   fill_loop y y' s paths =
     (s\<lparr>arrays := (arrays s)[y' := fst (fill_rows (arrays s ! y) (arrays s ! y') paths)]\<rparr>,
      snd (fill_rows (arrays s ! y) (arrays s ! y') paths))"
proof (induction y y' s paths rule: fill_loop.induct)
  case (1 y y' s)
  then show ?case by simp
next
  case (2 y y' s target distances paths)
  show ?case
  proof (cases "target = ROOT")
    case True
    with 2 show ?thesis by simp
  next
    case False
    show ?thesis
    proof (cases "where_positive (arrays s ! y) target")
      case (Inl e)
      with False 2(3,4) show ?thesis by simp
    next
      case (Inr ix_rows)
      show ?thesis
      proof (cases "assign_ones (arrays s ! y') ix_rows (butlast (map fst distances))")
        case (Inl e)
        with False Inr 2(3,4) show ?thesis by simp
      next
        case (Inr a)
        with False \<open>where_positive (arrays s ! y) target = Inr ix_rows\<close> 2(2)[OF False \<open>where_positive (arrays s ! y) target = Inr ix_rows\<close> Inr] 2(3,4)
        show ?thesis by simp
      qed
    qed
  qed
qed

lemma fill_ancestors_True:
  "fill_ancestors s y g True =
     (fst (fill_loop y (length (arrays s)) (s\<lparr>arrays := arrays s @ [arrays s ! y]\<rparr>)
             (all_pairs_shortest_path_length (graphs s ! g))),
      case snd (fill_loop y (length (arrays s)) (s\<lparr>arrays := arrays s @ [arrays s ! y]\<rparr>)
             (all_pairs_shortest_path_length (graphs s ! g))) of
        Some e \<Rightarrow> Inl e | None \<Rightarrow> Inr (length (arrays s)))"
  by (simp add: fill_ancestors_def Let_def split: prod.splits option.splits)

lemma fill_ancestors_False:
  "fill_ancestors s y g False =
     (fst (fill_loop y y s (all_pairs_shortest_path_length (graphs s ! g))),
      case snd (fill_loop y y s (all_pairs_shortest_path_length (graphs s ! g))) of
        Some e \<Rightarrow> Inl e | None \<Rightarrow> Inr y)"
  by (simp add: fill_ancestors_def Let_def split: prod.splits option.splits)

lemma fill_ancestors_copy:
  assumes "y < length (arrays s)"
  shows "fill_ancestors s y g True =
     (s\<lparr>arrays := arrays s @ [fst (filled (arrays s ! y) (graphs s ! g))]\<rparr>,
      case snd (filled (arrays s ! y) (graphs s ! g)) of
        None \<Rightarrow> Inr (length (arrays s)) | Some e \<Rightarrow> Inl e)"
proof -
  let ?s1 = "s\<lparr>arrays := arrays s @ [arrays s ! y]\<rparr>"
  have "fill_loop y (length (arrays s)) ?s1 (all_pairs_shortest_path_length (graphs s ! g)) =
     (?s1\<lparr>arrays := (arrays ?s1)[length (arrays s) := fst (filled (arrays s ! y) (graphs s ! g))]\<rparr>,
      snd (filled (arrays s ! y) (graphs s ! g)))"
    using assms fill_loop_copy[of y "length (arrays s)" ?s1] by (simp add: filled_def nth_append)
  then show ?thesis
    by (simp add: fill_ancestors_def split: option.splits)
qed

lemma marks_Nil: "marks y [] i j = False"
  by (simp add: marks_def)

lemma marks_Cons:
  "marks y ((t, d) # paths) i j =
     ((t \<noteq> ROOT \<and> (\<exists>jt. column_index (n_classes y) t = Inr jt \<and> 0 < cell y i jt)
        \<and> (\<exists>a\<in>set (butlast (map fst d)). column_index (n_classes y) a = Inr j))
      \<or> marks y paths i j)"
  by (simp add: marks_def)

lemma fill_rows_shape:
  "fill_rows y acc paths = (acc', e) \<Longrightarrow>
   n_classes acc' = n_classes acc \<and> n_samples acc' = n_samples acc"
proof (induction y acc paths rule: fill_rows.induct)
  case (1 y acc)
  then show ?case by simp
next
  case (2 y acc target distances paths)
  then show ?case
    by (auto split: if_splits sum.splits dest: assign_ones_n_classes assign_ones_n_samples)
qed

lemma fill_rows_valid:
  "fill_rows y acc paths = (acc', e) \<Longrightarrow> valid_array acc \<Longrightarrow> valid_array acc'"
proof (induction y acc paths rule: fill_rows.induct)
  case (1 y acc)
  then show ?case by simp
next
  case (2 y acc target distances paths)
  then show ?case
    by (auto split: if_splits sum.splits dest: assign_ones_valid)
qed

lemma fill_rows_cell:
  "fill_rows y acc paths = (acc', None) \<Longrightarrow> n_classes acc = n_classes y \<Longrightarrow>
   n_samples acc = n_samples y \<Longrightarrow> i < n_samples y \<Longrightarrow> j < n_classes y \<Longrightarrow>
   cell acc' i j = (if marks y paths i j then 1 else cell acc i j)"
proof (induction y acc paths rule: fill_rows.induct)
  case (1 y acc)
  then show ?case by (simp add: marks_Nil)
next
  case (2 y acc target distances paths)
  show ?case
  proof (cases "target = ROOT")
    case True
    with 2 show ?thesis by (simp add: marks_Cons)
  next
    case nr: False
    from 2(3) nr obtain ix_rows where wp: "where_positive y target = Inr ix_rows"
      by (auto split: sum.splits)
    from 2(3) nr wp obtain a where a: "assign_ones acc ix_rows (butlast (map fst distances)) = Inr a"
      by (auto split: sum.splits)
    from 2(3) nr wp a have rest: "fill_rows y a paths = (acc', None)" by simp
    have sh: "n_classes a = n_classes y" "n_samples a = n_samples y"
      using assign_ones_n_classes[OF a] assign_ones_n_samples[OF a] 2(4,5) by simp_all
    have ih: "cell acc' i j = (if marks y paths i j then 1 else cell a i j)"
      using 2(2)[OF nr wp a rest sh 2(6,7)] .
    from where_positive_set[OF wp] obtain jt where jt: "column_index (n_classes y) target = Inr jt"
      and rows: "set ix_rows = {i. i < n_samples y \<and> 0 < cell y i jt}" by auto
    have "cell a i j = (if i \<in> set ix_rows \<and> (\<exists>t\<in>set (butlast (map fst distances)). column_index (n_classes acc) t = Inr j) then 1 else cell acc i j)"
      using assign_ones_cell[OF a] 2(4,5,6,7) by simp
    then have ca: "cell a i j = (if 0 < cell y i jt \<and> (\<exists>t\<in>set (butlast (map fst distances)). column_index (n_classes y) t = Inr j) then 1 else cell acc i j)"
      using rows 2(4,6) by simp
    show ?thesis unfolding ih ca marks_Cons using nr jt by auto
  qed
qed

lemma fill_rows_no_error_D:
  "fill_rows y acc paths = (acc', None) \<Longrightarrow> (t, d) \<in> set paths \<Longrightarrow> t \<noteq> ROOT \<Longrightarrow>
   (\<exists>jt. column_index (n_classes y) t = Inr jt) \<and> butlast (map fst d) \<noteq> []
     \<and> ROOT \<notin> set (butlast (map fst d))"
proof (induction y acc paths rule: fill_rows.induct)
  case (1 y acc)
  then show ?case by simp
next
  case (2 y acc target distances paths)
  show ?case
  proof (cases "target = ROOT")
    case True
    with 2 show ?thesis by auto
  next
    case nr: False
    from 2(3) nr obtain ix_rows where wp: "where_positive y target = Inr ix_rows"
      by (auto split: sum.splits)
    from 2(3) nr wp obtain a where a: "assign_ones acc ix_rows (butlast (map fst distances)) = Inr a"
      by (auto split: sum.splits)
    from 2(3) nr wp a have rest: "fill_rows y a paths = (acc', None)" by simp
    show ?thesis
    proof (cases "(t, d) = (target, distances)")
      case True
      have "\<exists>jt. column_index (n_classes y) target = Inr jt"
        using where_positive_set[OF wp] by auto
      moreover have "butlast (map fst distances) \<noteq> [] \<and> ROOT \<notin> set (butlast (map fst distances))"
        using a by (auto simp: assign_ones_def split: if_splits)
      ultimately show ?thesis using True by simp
    next
      case False
      with 2(4) have "(t, d) \<in> set paths" by auto
      from 2(2)[OF nr wp a rest this 2(5)] show ?thesis .
    qed
  qed
qed

lemma fill_rows_no_error_I:
  "(\<forall>(t, d)\<in>set paths. t \<noteq> ROOT \<longrightarrow>
      (\<exists>jt. column_index (n_classes y) t = Inr jt) \<and> butlast (map fst d) \<noteq> []
      \<and> (\<forall>a\<in>set (butlast (map fst d)). \<exists>j. column_index (n_classes y) a = Inr j)) \<Longrightarrow>
   n_classes acc = n_classes y \<Longrightarrow> snd (fill_rows y acc paths) = None"
proof (induction y acc paths rule: fill_rows.induct)
  case (1 y acc)
  then show ?case by simp
next
  case (2 y acc target distances paths)
  show ?case
  proof (cases "target = ROOT")
    case True
    with 2 show ?thesis by simp
  next
    case nr: False
    from 2(3) nr obtain jt where jt: "column_index (n_classes y) target = Inr jt"
      and ne: "butlast (map fst distances) \<noteq> []"
      and cols: "\<forall>a\<in>set (butlast (map fst distances)). \<exists>j. column_index (n_classes y) a = Inr j"
      by auto
    from jt obtain ix_rows where wp: "where_positive y target = Inr ix_rows"
      by (simp add: where_positive_def)
    have noroot: "ROOT \<notin> set (butlast (map fst distances))" using cols by auto
    obtain js where js: "column_indices (n_classes acc) (butlast (map fst distances)) = Inr js"
      using column_indices_ok[OF cols] 2(4) by auto
    have "\<exists>a. assign_ones acc ix_rows (butlast (map fst distances)) = Inr a"
      using ne noroot js by (simp add: assign_ones_def)
    then obtain a where a: "assign_ones acc ix_rows (butlast (map fst distances)) = Inr a" ..
    have "n_classes a = n_classes y" using assign_ones_n_classes[OF a] 2(4) by simp
    moreover have "\<forall>(t, d)\<in>set paths. t \<noteq> ROOT \<longrightarrow>
      (\<exists>jt. column_index (n_classes y) t = Inr jt) \<and> butlast (map fst d) \<noteq> []
      \<and> (\<forall>a\<in>set (butlast (map fst d)). \<exists>j. column_index (n_classes y) a = Inr j)"
      using 2(3) by auto
    ultimately have "snd (fill_rows y a paths) = None"
      using 2(2)[OF nr wp a] by simp
    with nr wp a show ?thesis by simp
  qed
qed

lemma fill_rows_error: "snd (fill_rows y acc paths) = Some e \<Longrightarrow> e = IndexError"
proof (induction y acc paths rule: fill_rows.induct)
  case (1 y acc)
  then show ?case by simp
next
  case (2 y acc target distances paths)
  then show ?case
    by (auto split: if_splits sum.splits dest: where_positive_error assign_ones_error)
qed

lemma filled_error: "snd (filled a G) = Some e \<Longrightarrow> e = IndexError"
  unfolding filled_def by (rule fill_rows_error)

lemma filled_shape:
  "filled a G = (b, e) \<Longrightarrow> n_classes b = n_classes a \<and> n_samples b = n_samples a"
  unfolding filled_def by (rule fill_rows_shape)

section \<open>Filling on a rooted hierarchy\<close>

lemma reach_in_nodes:
  assumes "hierarchy G" "(v, u) \<in> (parent_rel G)\<^sup>*" "v \<in> set (nodes G)"
  shows "u \<in> set (nodes G)"
  using assms(2,3)
proof (induction rule: rtrancl_induct)
  case base
  then show ?case .
next
  case (step b c)
  from step(2) have "(c, b) \<in> set (edges G)" by (simp add: parent_rel_def)
  with assms(1) show ?case by (auto simp: hierarchy_def)
qed

lemma in_all_pairs:
  "(t, d) \<in> set (all_pairs_shortest_path_length G)
     \<longleftrightarrow> t \<in> set (nodes G) \<and> d = single_source_shortest_path_length G t"
  by (auto simp: all_pairs_shortest_path_length_def)

lemma has_columns_node:
  assumes "has_columns G y" "v \<in> set (nodes G)" "v \<noteq> ROOT"
  shows "\<exists>k<n_classes y. v = Node (int k) \<and> column_index (n_classes y) v = Inr k"
proof -
  from assms obtain z where z: "v = Node z" "0 \<le> z" "z < int (n_classes y)"
    by (cases v) (auto simp: has_columns_def list_all_iff)
  then have "nat z < n_classes y" "v = Node (int (nat z))" "column_index (n_classes y) v = Inr (nat z)"
    by auto
  then show ?thesis by blast
qed

lemma marks_all_pairs:
  assumes h: "hierarchy G" and c: "has_columns G y"
    and nr: "\<forall>t\<in>set (nodes G). t \<noteq> ROOT \<longrightarrow> ROOT \<notin> set (butlast (reached G t))"
    and j: "j < n_classes y"
  shows "marks y (all_pairs_shortest_path_length G) i j \<longleftrightarrow>
     (\<exists>d<n_classes y. Node (int d) \<in> set (nodes G) \<and> 0 < cell y i d
        \<and> (Node (int d), Node (int j)) \<in> (parent_rel G)\<^sup>*)"
    (is "?L \<longleftrightarrow> ?R")
proof
  assume ?L
  then obtain t jt a where t: "t \<in> set (nodes G)" "t \<noteq> ROOT"
    and jt: "column_index (n_classes y) t = Inr jt" "0 < cell y i jt"
    and a: "a \<in> set (butlast (reached G t))" "column_index (n_classes y) a = Inr j"
    by (auto simp: marks_def in_all_pairs reached_def)
  from has_columns_node[OF c t] jt(1) have td: "t = Node (int jt)" "jt < n_classes y" by auto
  have root: "(t, ROOT) \<in> (parent_rel G)\<^sup>*" using h t by (auto simp: hierarchy_def)
  have anc: "set (butlast (reached G t)) = (parent_rel G)\<^sup>* `` {t} - {ROOT}"
    using butlast_without_root[OF root] nr t by simp
  with a(1) have ta: "(t, a) \<in> (parent_rel G)\<^sup>*" "a \<noteq> ROOT" by auto
  have "a \<in> set (nodes G)" using reach_in_nodes[OF h ta(1) t(1)] .
  from has_columns_node[OF c this ta(2)] a(2) have "a = Node (int j)" by auto
  with ta td jt t show ?R by auto
next
  assume ?R
  then obtain d where d: "d < n_classes y" "Node (int d) \<in> set (nodes G)" "0 < cell y i d"
    "(Node (int d), Node (int j)) \<in> (parent_rel G)\<^sup>*" by auto
  let ?t = "Node (int d)"
  have root: "(?t, ROOT) \<in> (parent_rel G)\<^sup>*" using h d(2) by (auto simp: hierarchy_def)
  have anc: "set (butlast (reached G ?t)) = (parent_rel G)\<^sup>* `` {?t} - {ROOT}"
    using butlast_without_root[OF root] nr d(2) by simp
  have mem: "Node (int j) \<in> set (butlast (reached G ?t))" using anc d(4) by auto
  have cj: "column_index (n_classes y) (Node (int j)) = Inr j" using j by simp
  have cd: "column_index (n_classes y) ?t = Inr d" using d(1) by simp
  have A: "\<exists>jt. column_index (n_classes y) ?t = Inr jt \<and> 0 < cell y i jt"
    using cd d(3) by blast
  have B: "\<exists>a\<in>set (butlast (map fst (single_source_shortest_path_length G ?t))).
             column_index (n_classes y) a = Inr j"
    using mem cj unfolding reached_def by blast
  have P: "(?t, single_source_shortest_path_length G ?t) \<in> set (all_pairs_shortest_path_length G)"
    using d(2) by (simp add: in_all_pairs)
  show ?L unfolding marks_def
    by (rule bexI[OF _ P]) (use A B in \<open>simp del: column_index.simps\<close>)
qed

lemma filled_no_root:
  assumes "filled a G = (b, None)"
  shows "\<forall>t\<in>set (nodes G). t \<noteq> ROOT \<longrightarrow>
           butlast (reached G t) \<noteq> [] \<and> ROOT \<notin> set (butlast (reached G t))"
proof (intro ballI impI)
  fix t assume t: "t \<in> set (nodes G)" "t \<noteq> ROOT"
  have "(t, single_source_shortest_path_length G t) \<in> set (all_pairs_shortest_path_length G)"
    using t(1) by (simp add: in_all_pairs)
  from fill_rows_no_error_D[OF assms[unfolded filled_def] this t(2)]
  show "butlast (reached G t) \<noteq> [] \<and> ROOT \<notin> set (butlast (reached G t))"
    by (simp add: reached_def)
qed

lemma filled_cell:
  assumes "hierarchy G" "has_columns G a" "filled a G = (b, None)"
    and "i < n_samples a" "j < n_classes a"
  shows "cell b i j =
     (if \<exists>d<n_classes a. Node (int d) \<in> set (nodes G) \<and> 0 < cell a i d
            \<and> (Node (int d), Node (int j)) \<in> (parent_rel G)\<^sup>*
      then 1 else cell a i j)"
proof -
  have nr: "\<forall>t\<in>set (nodes G). t \<noteq> ROOT \<longrightarrow> ROOT \<notin> set (butlast (reached G t))"
    using filled_no_root[OF assms(3)] by blast
  have "cell b i j = (if marks a (all_pairs_shortest_path_length G) i j then 1 else cell a i j)"
    using fill_rows_cell[OF assms(3)[unfolded filled_def] _ _ assms(4,5)] by simp
  then show ?thesis unfolding marks_all_pairs[OF assms(1,2) nr assms(5)] .
qed

lemma filled_returns:
  assumes h: "hierarchy G" and c: "has_columns G a"
    and nr: "\<forall>t\<in>set (nodes G). t \<noteq> ROOT \<longrightarrow>
           butlast (reached G t) \<noteq> [] \<and> ROOT \<notin> set (butlast (reached G t))"
  shows "snd (filled a G) = None"
  unfolding filled_def
proof (rule fill_rows_no_error_I)
  show "\<forall>(t, d)\<in>set (all_pairs_shortest_path_length G). t \<noteq> ROOT \<longrightarrow>
      (\<exists>jt. column_index (n_classes a) t = Inr jt) \<and> butlast (map fst d) \<noteq> []
      \<and> (\<forall>x\<in>set (butlast (map fst d)). \<exists>j. column_index (n_classes a) x = Inr j)"
  proof (clarify, intro conjI ballI)
    fix t d assume td: "(t, d) \<in> set (all_pairs_shortest_path_length G)" "t \<noteq> ROOT"
    then have t: "t \<in> set (nodes G)" and d: "map fst d = reached G t"
      by (simp_all add: in_all_pairs reached_def)
    show "\<exists>jt. column_index (n_classes a) t = Inr jt"
      using has_columns_node[OF c t td(2)] by auto
    show "butlast (map fst d) \<noteq> []" using nr t td(2) d by simp
    fix x assume x: "x \<in> set (butlast (map fst d))"
    with nr t td(2) d have "x \<noteq> ROOT" by auto
    moreover have "x \<in> set (reached G t)" using x d by (auto dest: in_set_butlastD)
    then have "(t, x) \<in> (parent_rel G)\<^sup>*" by (simp add: set_reached)
    then have "x \<in> set (nodes G)" using reach_in_nodes[OF h _ t] by simp
    ultimately show "\<exists>j. column_index (n_classes a) x = Inr j"
      using has_columns_node[OF c] by auto
  qed
qed simp

lemma filled_idem:
  assumes h: "hierarchy G" and c: "has_columns G a" and v: "valid_array a"
    and f: "filled a G = (b, None)"
  shows "filled b G = (b, None)"
proof -
  have sh: "n_classes b = n_classes a" "n_samples b = n_samples a"
    using filled_shape[OF f] by simp_all
  have cb: "has_columns G b" using c unfolding has_columns_def sh(1) .
  have vb: "valid_array b" using fill_rows_valid[OF f[unfolded filled_def] v] .
  have nr: "\<forall>t\<in>set (nodes G). t \<noteq> ROOT \<longrightarrow>
           butlast (reached G t) \<noteq> [] \<and> ROOT \<notin> set (butlast (reached G t))"
    using filled_no_root[OF f] .
  have "snd (filled b G) = None" using filled_returns[OF h cb nr] .
  then obtain c' where c': "filled b G = (c', None)"
    by (cases "filled b G") simp
  have sh': "n_classes c' = n_classes b" "n_samples c' = n_samples b"
    using filled_shape[OF c'] by simp_all
  have vc: "valid_array c'" using fill_rows_valid[OF c'[unfolded filled_def] vb] .
  have "c' = b"
  proof (rule ndarray_eqI[OF vc vb sh'])
    fix i j assume "i < n_samples c'" "j < n_classes c'"
    then have ij: "i < n_samples a" "j < n_classes a" using sh sh' by simp_all
    have ijb: "i < n_samples b" "j < n_classes b" using ij sh by simp_all
    show "cell c' i j = cell b i j"
    proof (cases "\<exists>d<n_classes b. Node (int d) \<in> set (nodes G) \<and> 0 < cell b i d
            \<and> (Node (int d), Node (int j)) \<in> (parent_rel G)\<^sup>*")
      case False
      show ?thesis by (simp only: filled_cell[OF h cb c' ijb] if_not_P[OF False])
    next
      case True
      then obtain d where d: "d < n_classes a" "Node (int d) \<in> set (nodes G)" "0 < cell b i d"
        "(Node (int d), Node (int j)) \<in> (parent_rel G)\<^sup>*" using sh by auto
      have "\<exists>d'<n_classes a. Node (int d') \<in> set (nodes G) \<and> 0 < cell a i d'
            \<and> (Node (int d'), Node (int j)) \<in> (parent_rel G)\<^sup>*"
      proof (cases "\<exists>d'<n_classes a. Node (int d') \<in> set (nodes G) \<and> 0 < cell a i d'
            \<and> (Node (int d'), Node (int d)) \<in> (parent_rel G)\<^sup>*")
        case True
        then obtain d' where "d' < n_classes a" "Node (int d') \<in> set (nodes G)" "0 < cell a i d'"
          "(Node (int d'), Node (int d)) \<in> (parent_rel G)\<^sup>*" by auto
        with d(4) show ?thesis by (meson rtrancl_trans)
      next
        case False
        have "cell b i d = cell a i d"
          by (simp only: filled_cell[OF h c f ij(1) d(1)] if_not_P[OF False])
        with d show ?thesis by auto
      qed
      then have "cell b i j = 1" by (simp only: filled_cell[OF h c f ij] if_P)
      moreover have "cell c' i j = 1" by (simp only: filled_cell[OF h cb c' ijb] if_P[OF True])
      ultimately show ?thesis by simp
    qed
  qed
  with c' show ?thesis by simp
qed

text \<open>Filling the returned matrix again returns a new matrix equal to it.\<close>

lemma fill_ancestors_again:
  assumes "y < length (arrays s)" "valid_array (arrays s ! y)"
    and "hierarchy (graphs s ! g)" "has_columns (graphs s ! g) (arrays s ! y)"
    and "fill_ancestors s y g True = (s1, Inr y1)"
  shows "fill_ancestors s1 y1 g True
           = (s1\<lparr>arrays := arrays s1 @ [arrays s1 ! y1]\<rparr>, Inr (length (arrays s1)))"
proof -
  let ?a = "arrays s ! y" and ?G = "graphs s ! g"
  obtain b e where be: "filled ?a ?G = (b, e)" by (cases "filled ?a ?G")
  from assms(5) have e: "e = None" and y1: "y1 = length (arrays s)"
    and s1: "s1 = s\<lparr>arrays := arrays s @ [b]\<rparr>"
    unfolding fill_ancestors_copy[OF assms(1)] be by (auto split: option.splits)
  have idem: "filled b ?G = (b, None)"
    using filled_idem[OF assms(3,4,2)] be e by simp
  have "y1 < length (arrays s1)" "arrays s1 ! y1 = b" "graphs s1 ! g = ?G"
    by (simp_all add: s1 y1)
  then show ?thesis using fill_ancestors_copy[of y1 s1 g] idem by simp
qed

text \<open>
  Whenever the call returns on a rooted hierarchy, a cell of the returned matrix is 1
  when the row has a positive entry at a node from which the cell's node is reached
  along parent edges, and is the cell of the input otherwise.
\<close>

lemma fill_ancestors_closure:
  assumes "y < length (arrays s)" "hierarchy (graphs s ! g)"
    and "has_columns (graphs s ! g) (arrays s ! y)"
    and "fill_ancestors s y g True = (s1, Inr y1)"
    and "i < n_samples (arrays s ! y)" "c < n_classes (arrays s ! y)"
  shows "cell (arrays s1 ! y1) i c =
     (if \<exists>d<n_classes (arrays s ! y). Node (int d) \<in> set (nodes (graphs s ! g))
            \<and> 0 < cell (arrays s ! y) i d
            \<and> (Node (int d), Node (int c)) \<in> (parent_rel (graphs s ! g))\<^sup>*
      then 1 else cell (arrays s ! y) i c)"
proof -
  let ?a = "arrays s ! y" and ?G = "graphs s ! g"
  obtain b e where be: "filled ?a ?G = (b, e)" by (cases "filled ?a ?G")
  from assms(4) have e: "e = None" and y1: "y1 = length (arrays s)"
    and s1: "s1 = s\<lparr>arrays := arrays s @ [b]\<rparr>"
    unfolding fill_ancestors_copy[OF assms(1)] be by (auto split: option.splits)
  have "arrays s1 ! y1 = b" by (simp add: s1 y1)
  moreover have "filled ?a ?G = (b, None)" using be e by simp
  ultimately show ?thesis using filled_cell[OF assms(2,3) _ assms(5,6)] by simp
qed

section \<open>Tree-shaped hierarchies\<close>

lemma tree_is_hierarchy: "tree_hierarchy G \<Longrightarrow> hierarchy G"
  by (simp add: tree_hierarchy_def)

lemma root_no_parent: "tree_hierarchy G \<Longrightarrow> (ROOT, x) \<notin> parent_rel G"
proof
  assume t: "tree_hierarchy G" and "(ROOT, x) \<in> parent_rel G"
  then have "x \<in> set (reverse_adj G ROOT)" by (simp add: set_reverse_adj)
  with t show False by (simp add: tree_hierarchy_def)
qed

lemma child_in_nodes: "hierarchy G \<Longrightarrow> (v, u) \<in> parent_rel G \<Longrightarrow> v \<in> set (nodes G)"
  by (auto simp: hierarchy_def parent_rel_def)

lemma tree_parent:
  assumes "tree_hierarchy G" "(v, u) \<in> parent_rel G"
  shows "reverse_adj G v = [u]"
proof -
  have v: "v \<in> set (nodes G)" using assms child_in_nodes tree_is_hierarchy by blast
  have "v \<noteq> ROOT" using assms root_no_parent by blast
  with v assms(1) have "length (reverse_adj G v) = 1" by (simp add: tree_hierarchy_def)
  then obtain w where w: "reverse_adj G v = [w]"
    by (cases "reverse_adj G v") auto
  moreover have "u \<in> set (reverse_adj G v)" using assms(2) by (simp add: set_reverse_adj)
  ultimately show ?thesis by simp
qed

lemma tree_parent_unique:
  assumes "tree_hierarchy G" "(v, u) \<in> parent_rel G" "(v, w) \<in> parent_rel G"
  shows "w = u"
  using tree_parent[OF assms(1,2)] tree_parent[OF assms(1,3)] by simp

lemma tree_no_cycle:
  assumes t: "tree_hierarchy G" and e: "(v, u) \<in> parent_rel G"
  shows "(u, v) \<notin> (parent_rel G)\<^sup>*"
proof
  let ?R = "parent_rel G"
  assume cyc: "(u, v) \<in> ?R\<^sup>*"
  have v: "v \<in> set (nodes G)" using t e child_in_nodes tree_is_hierarchy by blast
  have vr: "v \<noteq> ROOT" using t e root_no_parent by blast
  have loop: "(w, v) \<in> ?R\<^sup>*" if "(v, w) \<in> ?R\<^sup>*" for w
    using that
  proof (induction rule: rtrancl_induct)
    case base
    show ?case by simp
  next
    case (step w w')
    from step(3) show ?case
    proof (cases rule: converse_rtranclE)
      case base
      with step(2) e have "w' = u" using tree_parent_unique[OF t] by blast
      with cyc show ?thesis by simp
    next
      case (step x)
      with \<open>(w, w') \<in> ?R\<close> have "x = w'" using tree_parent_unique[OF t] by blast
      with step show ?thesis by simp
    qed
  qed
  have "(v, ROOT) \<in> ?R\<^sup>*" using t v vr by (auto simp: tree_hierarchy_def hierarchy_def)
  then have "(ROOT, v) \<in> ?R\<^sup>*" by (rule loop)
  then have "v = ROOT" using root_no_parent[OF t] by (auto elim: converse_rtranclE)
  with vr show False by simp
qed

lemma levels_chain:
  assumes t: "tree_hierarchy G" and r: "(v, ROOT) \<in> (parent_rel G)\<^sup>*"
  shows "set seen \<inter> (parent_rel G)\<^sup>* `` {v} \<subseteq> {v} \<Longrightarrow>
     (if v = ROOT then levels G level seen [v] = []
      else levels G level seen [v] \<noteq> [] \<and> fst (last (levels G level seen [v])) = ROOT)"
  using r
proof (induction arbitrary: level seen rule: converse_rtrancl_induct)
  case base
  have "levels G level seen [ROOT] = []"
    using t by (subst levels_unfold) (simp add: tree_hierarchy_def levels_Nil)
  then show ?case by simp
next
  case (step y z)
  let ?R = "parent_rel G"
  have adj: "reverse_adj G y = [z]" using tree_parent[OF t step(1)] .
  have yr: "y \<noteq> ROOT" using t step(1) root_no_parent by blast
  have nc: "(z, y) \<notin> ?R\<^sup>*" using tree_no_cycle[OF t step(1)] .
  then have zy: "z \<noteq> y" by auto
  have "z \<in> ?R\<^sup>* `` {y}" using step(1) by auto
  with step(4) zy have zs: "z \<notin> set seen" by auto
  have unf: "levels G level seen [y] = (z, Suc level) # levels G (Suc level) (seen @ [z]) [z]"
    using zs by (subst levels_unfold) (simp add: adj)
  have inv: "set (seen @ [z]) \<inter> ?R\<^sup>* `` {z} \<subseteq> {z}"
  proof
    fix x assume x: "x \<in> set (seen @ [z]) \<inter> ?R\<^sup>* `` {z}"
    show "x \<in> {z}"
    proof (rule ccontr)
      assume "x \<notin> {z}"
      with x have xs: "x \<in> set seen" and zx: "(z, x) \<in> ?R\<^sup>*" by auto
      from zx step(1) have "(y, x) \<in> ?R\<^sup>*" by (meson converse_rtrancl_into_rtrancl)
      with xs step(4) have "x = y" by auto
      with zx nc show False by simp
    qed
  qed
  from step(3)[OF inv, of "Suc level"] show ?case
    unfolding unf using yr by (auto split: if_splits)
qed

lemma tree_root_last:
  assumes t: "tree_hierarchy G" and v: "v \<in> set (nodes G)" "v \<noteq> ROOT"
  shows "butlast (reached G v) \<noteq> [] \<and> ROOT \<notin> set (butlast (reached G v))"
proof -
  have r: "(v, ROOT) \<in> (parent_rel G)\<^sup>*"
    using t v by (auto simp: tree_hierarchy_def hierarchy_def)
  have "set [v] \<inter> (parent_rel G)\<^sup>* `` {v} \<subseteq> {v}" by auto
  from levels_chain[OF t r this, of 0] v(2)
  have ne: "levels G 0 [v] [v] \<noteq> []" and l: "fst (last (levels G 0 [v] [v])) = ROOT" by auto
  have eq: "reached G v = v # map fst (levels G 0 [v] [v])"
    by (simp add: reached_def single_source_shortest_path_length_def)
  have last: "last (reached G v) = ROOT" using ne l by (simp add: eq last_map)
  have "reached G v = butlast (reached G v) @ [ROOT]"
    using last reached_nonempty[of G v] by (metis append_butlast_last_id)
  then have "distinct (butlast (reached G v) @ [ROOT])" using distinct_reached[of G v] by simp
  then have "ROOT \<notin> set (butlast (reached G v))" by simp
  moreover have "butlast (reached G v) \<noteq> []" using ne by (simp add: eq)
  ultimately show ?thesis by simp
qed

text \<open>
  The output guarantee on trees: on a tree-shaped hierarchy whose non-root
  nodes all have a column, \<open>fill_ancestors\<close> returns a new matrix of the same
  shape, in which a cell is 1 when the row has a positive entry at a node from which
  the cell's node is reached along parent edges (the node itself or one of its
  descendants), and is the cell of the input otherwise.
\<close>

theorem fill_ancestors_on_trees:
  assumes "y < length (arrays s)" "tree_hierarchy (graphs s ! g)"
    and "has_columns (graphs s ! g) (arrays s ! y)"
  shows "\<exists>b. fill_ancestors s y g True = (s\<lparr>arrays := arrays s @ [b]\<rparr>, Inr (length (arrays s)))
     \<and> n_samples b = n_samples (arrays s ! y) \<and> n_classes b = n_classes (arrays s ! y)
     \<and> (\<forall>i<n_samples (arrays s ! y). \<forall>c<n_classes (arrays s ! y).
          cell b i c =
            (if \<exists>d<n_classes (arrays s ! y). Node (int d) \<in> set (nodes (graphs s ! g))
                  \<and> 0 < cell (arrays s ! y) i d
                  \<and> (Node (int d), Node (int c)) \<in> (parent_rel (graphs s ! g))\<^sup>*
             then 1 else cell (arrays s ! y) i c))"
proof -
  let ?a = "arrays s ! y" and ?G = "graphs s ! g"
  have h: "hierarchy ?G" using assms(2) by (rule tree_is_hierarchy)
  have "snd (filled ?a ?G) = None"
    using filled_returns[OF h assms(3)] tree_root_last[OF assms(2)] by blast
  then obtain b where b: "filled ?a ?G = (b, None)" by (cases "filled ?a ?G") simp
  have "fill_ancestors s y g True = (s\<lparr>arrays := arrays s @ [b]\<rparr>, Inr (length (arrays s)))"
    by (simp add: fill_ancestors_copy[OF assms(1)] b)
  moreover have "n_samples b = n_samples ?a \<and> n_classes b = n_classes ?a"
    using filled_shape[OF b] by simp
  moreover have "\<forall>i<n_samples ?a. \<forall>c<n_classes ?a. cell b i c =
            (if \<exists>d<n_classes ?a. Node (int d) \<in> set (nodes ?G) \<and> 0 < cell ?a i d
                  \<and> (Node (int d), Node (int c)) \<in> (parent_rel ?G)\<^sup>*
             then 1 else cell ?a i c)"
    using filled_cell[OF h assms(3) b] by blast
  ultimately show ?thesis by blast
qed

section \<open>The scores as functions of the filled arrays\<close>

lemma precision_recall_value: "precision_value t p = recall_value p t"
  by (simp add: precision_value_def recall_value_def count_both_nonzero_sym[of t p])

lemma h_precision_score_value:
  assumes "y_true < length (arrays s)" "y_pred < length (arrays s)"
  shows "snd (h_precision_score s y_true y_pred g)
     = on_filled precision_value (filled (arrays s ! y_true) (graphs s ! g))
                                 (filled (arrays s ! y_pred) (graphs s ! g))"
  and "\<exists>bs. fst (h_precision_score s y_true y_pred g) = s\<lparr>arrays := arrays s @ bs\<rparr>"
proof -
  let ?t = "filled (arrays s ! y_true) (graphs s ! g)"
  let ?p = "filled (arrays s ! y_pred) (graphs s ! g)"
  let ?s1 = "s\<lparr>arrays := arrays s @ [fst ?t]\<rparr>"
  have f1: "fill_ancestors s y_true g True =
      (?s1, case snd ?t of None \<Rightarrow> Inr (length (arrays s)) | Some e \<Rightarrow> Inl e)"
    using fill_ancestors_copy[OF assms(1)] .
  have "y_pred < length (arrays ?s1)" using assms(2) by simp
  from fill_ancestors_copy[OF this, of g]
  have f2: "fill_ancestors ?s1 y_pred g True =
      (s\<lparr>arrays := arrays s @ [fst ?t, fst ?p]\<rparr>,
       case snd ?p of None \<Rightarrow> Inr (Suc (length (arrays s))) | Some e \<Rightarrow> Inl e)"
    using assms(2) by (simp add: nth_append split: option.splits)
  show "snd (h_precision_score s y_true y_pred g) = on_filled precision_value ?t ?p"
    unfolding h_precision_score_def f1
    by (simp add: f2 on_filled_def precision_value_def nth_append Let_def split: option.splits sum.splits)
  show "\<exists>bs. fst (h_precision_score s y_true y_pred g) = s\<lparr>arrays := arrays s @ bs\<rparr>"
  proof (cases "snd ?t")
    case (Some e)
    then have "fst (h_precision_score s y_true y_pred g) = s\<lparr>arrays := arrays s @ [fst ?t]\<rparr>"
      unfolding h_precision_score_def f1 by simp
    then show ?thesis by blast
  next
    case None
    then have "fst (h_precision_score s y_true y_pred g) = s\<lparr>arrays := arrays s @ [fst ?t, fst ?p]\<rparr>"
      unfolding h_precision_score_def f1
      by (simp add: f2 Let_def split: option.splits sum.splits)
    then show ?thesis by blast
  qed
qed

lemma h_recall_score_value:
  assumes "y_true < length (arrays s)" "y_pred < length (arrays s)"
  shows "snd (h_recall_score s y_true y_pred g)
     = on_filled recall_value (filled (arrays s ! y_true) (graphs s ! g))
                              (filled (arrays s ! y_pred) (graphs s ! g))"
  and "\<exists>bs. fst (h_recall_score s y_true y_pred g) = s\<lparr>arrays := arrays s @ bs\<rparr>"
proof -
  let ?t = "filled (arrays s ! y_true) (graphs s ! g)"
  let ?p = "filled (arrays s ! y_pred) (graphs s ! g)"
  let ?s1 = "s\<lparr>arrays := arrays s @ [fst ?t]\<rparr>"
  have f1: "fill_ancestors s y_true g True =
      (?s1, case snd ?t of None \<Rightarrow> Inr (length (arrays s)) | Some e \<Rightarrow> Inl e)"
    using fill_ancestors_copy[OF assms(1)] .
  have "y_pred < length (arrays ?s1)" using assms(2) by simp
  from fill_ancestors_copy[OF this, of g]
  have f2: "fill_ancestors ?s1 y_pred g True =
      (s\<lparr>arrays := arrays s @ [fst ?t, fst ?p]\<rparr>,
       case snd ?p of None \<Rightarrow> Inr (Suc (length (arrays s))) | Some e \<Rightarrow> Inl e)"
    using assms(2) by (simp add: nth_append split: option.splits)
  show "snd (h_recall_score s y_true y_pred g) = on_filled recall_value ?t ?p"
    unfolding h_recall_score_def f1
    by (simp add: f2 on_filled_def recall_value_def nth_append Let_def split: option.splits sum.splits)
  show "\<exists>bs. fst (h_recall_score s y_true y_pred g) = s\<lparr>arrays := arrays s @ bs\<rparr>"
  proof (cases "snd ?t")
    case (Some e)
    then have "fst (h_recall_score s y_true y_pred g) = s\<lparr>arrays := arrays s @ [fst ?t]\<rparr>"
      unfolding h_recall_score_def f1 by simp
    then show ?thesis by blast
  next
    case None
    then have "fst (h_recall_score s y_true y_pred g) = s\<lparr>arrays := arrays s @ [fst ?t, fst ?p]\<rparr>"
      unfolding h_recall_score_def f1
      by (simp add: f2 Let_def split: option.splits sum.splits)
    then show ?thesis by blast
  qed
qed

text \<open>
  The F-beta score from the two scores as each function returns them on the caller's
  store: the precision call leaves its inputs as they are, so the recall call inside
  \<open>h_fbeta_score\<close> computes what it computes on the caller's store.
\<close>

lemma h_fbeta_score_value:
  assumes "y_true < length (arrays s)" "y_pred < length (arrays s)"
  shows "snd (h_fbeta_score s y_true y_pred g beta) =
     (case snd (h_precision_score s y_true y_pred g) of
        Inl e \<Rightarrow> Inl e
      | Inr hP \<Rightarrow>
          (case snd (h_recall_score s y_true y_pred g) of
             Inl e \<Rightarrow> Inl e
           | Inr hR \<Rightarrow>
               if float_max < beta\<^sup>2 then Inl OverflowError
               else if beta\<^sup>2 * hP + hR = 0 then Inl ZeroDivisionError
               else Inr ((1 + beta\<^sup>2) * hP * hR / (beta\<^sup>2 * hP + hR))))"
proof -
  obtain bs where s1: "fst (h_precision_score s y_true y_pred g) = s\<lparr>arrays := arrays s @ bs\<rparr>"
    using h_precision_score_value(2)[OF assms(1,2)] by blast
  let ?s1 = "s\<lparr>arrays := arrays s @ bs\<rparr>"
  have same: "snd (h_recall_score ?s1 y_true y_pred g) = snd (h_recall_score s y_true y_pred g)"
    using assms(1,2) by (simp add: h_recall_score_value(1) nth_append)
  show ?thesis
  proof (cases "snd (h_precision_score s y_true y_pred g)")
    case (Inl e)
    then have "h_precision_score s y_true y_pred g = (?s1, Inl e)"
      using s1 by (metis prod.collapse)
    with Inl show ?thesis by (simp add: h_fbeta_score_def)
  next
    case (Inr hP)
    then have p: "h_precision_score s y_true y_pred g = (?s1, Inr hP)"
      using s1 by (metis prod.collapse)
    obtain s2 r where r: "h_recall_score ?s1 y_true y_pred g = (s2, r)"
      by (cases "h_recall_score ?s1 y_true y_pred g")
    with same have r': "snd (h_recall_score s y_true y_pred g) = r" by simp
    show ?thesis
      by (cases r) (simp_all add: h_fbeta_score_def p r r' Inr)
  qed
qed

lemma one_in_float_range: "\<not> float_max < (1::real)"
  by (simp add: float_max_def)

lemma large_beta_out_of_float_range: "float_max < ((10::real) ^ 200)\<^sup>2"
proof -
  have "float_max < (2::real) ^ 1200" by (simp add: float_max_def)
  also have "(2::real) ^ 1200 = (2 ^ 3) ^ 400" by (simp add: power_mult [symmetric])
  also have "\<dots> \<le> (10::real) ^ 400" by (intro power_mono) simp_all
  also have "(10::real) ^ 400 = (10 ^ 200)\<^sup>2" by (simp add: power_mult [symmetric])
  finally show ?thesis .
qed

section \<open>The example hierarchies\<close>

lemma hierarchy_code:
  "hierarchy G =
     (list_all (\<lambda>(p, c). p \<in> set (nodes G) \<and> c \<in> set (nodes G)) (edges G)
      \<and> list_all (\<lambda>v. v = ROOT \<or> ROOT \<in> set (reached G v)) (nodes G))"
  by (auto simp: hierarchy_def list_all_iff set_reached)

lemma tree_hierarchy_code:
  "tree_hierarchy G =
     (hierarchy G \<and> reverse_adj G ROOT = []
      \<and> list_all (\<lambda>v. v = ROOT \<or> length (reverse_adj G v) = 1) (nodes G))"
  by (auto simp: tree_hierarchy_def list_all_iff)

lemma chain_is_tree: "tree_hierarchy chain_hierarchy"
  unfolding tree_hierarchy_code hierarchy_code by code_simp

lemma shortcut_is_hierarchy: "hierarchy shortcut_hierarchy"
  unfolding hierarchy_code by code_simp

lemma diamond_is_hierarchy: "hierarchy diamond_hierarchy"
  unfolding hierarchy_code by code_simp

lemma shortcut_has_columns: "has_columns shortcut_hierarchy (arrays shortcut_store ! 0)"
  by code_simp

section \<open>The claims\<close>

text \<open>
  Claim C1.  The claim: for every binary label matrix and rooted hierarchy whose non-root
  nodes all have a column, the matrix returned by \<open>fill_ancestors\<close> has a 1 in
  column \<open>c\<close> of row \<open>i\<close> exactly when the row had a 1 in \<open>c\<close> or
  in a descendant of \<open>c\<close>.  On the hierarchy \<open>Root -> A -> B -> C\<close>,
  \<open>Root -> C\<close> and the sample labelled \<open>{C}\<close> the code does not get there:
  the ancestor list of \<open>C\<close> keeps the root and loses \<open>A\<close>, the assignment
  is refused, and no filled matrix is returned; column \<open>A\<close> of the sample is
  still 0 in the working copy.
\<close>

theorem fill_ancestors_shortcut_fails:
  "snd (fill_ancestors shortcut_store 0 0 True) = Inl IndexError
   \<and> cell (arrays (fst (fill_ancestors shortcut_store 0 0 True)) ! 1) 0 0 = 0"
  by code_simp

text \<open>
  Claim C2.  The claim: for every non-root target the root is the unique node at maximum
  distance among the nodes reached on the reversed graph, so that dropping the last
  element of the enumeration drops exactly the root.  On the hierarchy
  \<open>Root -> A -> B -> C\<close>, \<open>Root -> C\<close> the enumeration from \<open>C\<close>
  has the root at distance 1 and \<open>A\<close> at distance 2: dropping the last element
  drops the ancestor \<open>A\<close> and keeps the root.
\<close>

theorem root_not_last_on_shortcut:
  "single_source_shortest_path_length shortcut_hierarchy (Node 2)
     = [(Node 2, 0), (Node 1, 1), (ROOT, 1), (Node 0, 2)]
   \<and> butlast (map fst (single_source_shortest_path_length shortcut_hierarchy (Node 2)))
     = [Node 2, Node 1, ROOT]"
  by code_simp

text \<open>
  Claim C3.  For every store, matrix, graph and copy flag, the graphs of the store after
  \<open>fill_ancestors\<close> are the graphs before the call, nodes and edges in their
  order and direction alike: the reversed graph is only a view.
\<close>

theorem fill_ancestors_graph_unchanged:
  "graphs (fst (fill_ancestors s y graph copy)) = graphs s"
  by (cases copy) (simp_all add: fill_ancestors_True fill_ancestors_False fill_loop_graphs)

text \<open>
  Claim C4.  With \<open>copy=True\<close> the store after the call is the store before it
  with one array appended, so the input matrix and everything else are unchanged, and
  the reference returned is that of the new array, which is not \<open>y\<close>.  With
  \<open>copy=False\<close> the store after the call differs from the store before it in
  the array \<open>y\<close> at most, and the reference returned is \<open>y\<close> itself.
\<close>

theorem fill_ancestors_copy_flag:
  assumes "y < length (arrays s)"
  shows "(\<exists>b. fst (fill_ancestors s y graph True) = s\<lparr>arrays := arrays s @ [b]\<rparr>)
       \<and> (snd (fill_ancestors s y graph True) = Inr (length (arrays s))
            \<or> (\<exists>e. snd (fill_ancestors s y graph True) = Inl e))
       \<and> snd (fill_ancestors s y graph True) \<noteq> Inr y
       \<and> (\<exists>b. fst (fill_ancestors s y graph False) = s\<lparr>arrays := (arrays s)[y := b]\<rparr>)
       \<and> (snd (fill_ancestors s y graph False) = Inr y
            \<or> (\<exists>e. snd (fill_ancestors s y graph False) = Inl e))"
proof -
  have "\<exists>b. fst (fill_ancestors s y graph True) = s\<lparr>arrays := arrays s @ [b]\<rparr>"
    unfolding fill_ancestors_copy[OF assms] fst_conv by (rule exI) (rule refl)
  moreover have "snd (fill_ancestors s y graph True) = Inr (length (arrays s))
            \<or> (\<exists>e. snd (fill_ancestors s y graph True) = Inl e)"
    by (simp add: fill_ancestors_copy[OF assms] split: option.splits)
  moreover have "\<exists>b. fst (fill_ancestors s y graph False) = s\<lparr>arrays := (arrays s)[y := b]\<rparr>"
    using fill_loop_store[of y y s] by (simp add: fill_ancestors_False)
  moreover have "snd (fill_ancestors s y graph False) = Inr y
            \<or> (\<exists>e. snd (fill_ancestors s y graph False) = Inl e)"
    by (simp add: fill_ancestors_False split: option.splits)
  ultimately show ?thesis using assms by auto
qed

theorem fill_ancestors_copy_flag_witness:
  "0 < length (arrays chain_store)
   \<and> (\<exists>b. fst (fill_ancestors chain_store 0 0 True)
             = chain_store\<lparr>arrays := arrays chain_store @ [b]\<rparr>)
   \<and> (snd (fill_ancestors chain_store 0 0 True) = Inr (length (arrays chain_store))
        \<or> (\<exists>e. snd (fill_ancestors chain_store 0 0 True) = Inl e))
   \<and> snd (fill_ancestors chain_store 0 0 True) \<noteq> Inr 0
   \<and> (\<exists>b. fst (fill_ancestors chain_store 0 0 False)
             = chain_store\<lparr>arrays := (arrays chain_store)[0 := b]\<rparr>)
   \<and> (snd (fill_ancestors chain_store 0 0 False) = Inr 0
        \<or> (\<exists>e. snd (fill_ancestors chain_store 0 0 False) = Inl e))"
proof -
  have h: "0 < length (arrays chain_store)" by (simp add: chain_store_def)
  from fill_ancestors_copy_flag[OF h, of 0] h show ?thesis by blast
qed

text \<open>
  Claim C5.  Ancestor filling is idempotent: on a rooted hierarchy whose non-root nodes
  all have a column, \<open>fill_ancestors(fill_ancestors(y, g), g)\<close> leaves its
  caller what \<open>fill_ancestors(y, g)\<close> does: a matrix equal to the matrix filled
  once, or the exception of the first call.
\<close>

theorem fill_ancestors_idempotent:
  assumes "y < length (arrays s)" "valid_array (arrays s ! y)"
    and "hierarchy (graphs s ! g)" "has_columns (graphs s ! g) (arrays s ! y)"
  shows "outcome (case fill_ancestors s y g True of
                    (s1, Inl e) \<Rightarrow> (s1, Inl e)
                  | (s1, Inr y1) \<Rightarrow> fill_ancestors s1 y1 g True)
           = outcome (fill_ancestors s y g True)"
proof (cases "fill_ancestors s y g True")
  case (Pair s1 r)
  show ?thesis
  proof (cases r)
    case (Inl e)
    with Pair show ?thesis by simp
  next
    case (Inr y1)
    with Pair have f: "fill_ancestors s y g True = (s1, Inr y1)" by simp
    have "fill_ancestors s1 y1 g True
           = (s1\<lparr>arrays := arrays s1 @ [arrays s1 ! y1]\<rparr>, Inr (length (arrays s1)))"
      using fill_ancestors_again[OF assms f] .
    then show ?thesis by (simp add: f outcome_def)
  qed
qed

theorem fill_ancestors_idempotent_witness:
  "0 < length (arrays chain_store) \<and> valid_array (arrays chain_store ! 0)
   \<and> hierarchy (graphs chain_store ! 0) \<and> has_columns (graphs chain_store ! 0) (arrays chain_store ! 0)
   \<and> outcome (fill_ancestors chain_store 0 0 True) = Inr \<lparr>n_classes = 2, cells = [[1, 1]]\<rparr>
   \<and> outcome (case fill_ancestors chain_store 0 0 True of
                 (s1, Inl e) \<Rightarrow> (s1, Inl e)
               | (s1, Inr y1) \<Rightarrow> fill_ancestors s1 y1 0 True)
        = Inr \<lparr>n_classes = 2, cells = [[1, 1]]\<rparr>
   \<and> 0 < length (arrays diamond_store) \<and> valid_array (arrays diamond_store ! 0)
   \<and> hierarchy (graphs diamond_store ! 0)
   \<and> has_columns (graphs diamond_store ! 0) (arrays diamond_store ! 0)
   \<and> outcome (fill_ancestors diamond_store 0 0 True) = Inr \<lparr>n_classes = 3, cells = [[1, 1, 1]]\<rparr>
   \<and> outcome (case fill_ancestors diamond_store 0 0 True of
                 (s1, Inl e) \<Rightarrow> (s1, Inl e)
               | (s1, Inr y1) \<Rightarrow> fill_ancestors s1 y1 0 True)
        = Inr \<lparr>n_classes = 3, cells = [[1, 1, 1]]\<rparr>"
proof -
  have h1: "0 < length (arrays chain_store)" by (simp add: chain_store_def)
  have h2: "valid_array (arrays chain_store ! 0)" by code_simp
  have h3: "hierarchy (graphs chain_store ! 0)"
    using chain_is_tree by (simp add: chain_store_def tree_is_hierarchy)
  have h4: "has_columns (graphs chain_store ! 0) (arrays chain_store ! 0)" by code_simp
  have once: "outcome (fill_ancestors chain_store 0 0 True) = Inr \<lparr>n_classes = 2, cells = [[1, 1]]\<rparr>"
    by code_simp
  have d1: "0 < length (arrays diamond_store)" by (simp add: diamond_store_def)
  have d2: "valid_array (arrays diamond_store ! 0)" by code_simp
  have d3: "hierarchy (graphs diamond_store ! 0)"
    using diamond_is_hierarchy by (simp add: diamond_store_def)
  have d4: "has_columns (graphs diamond_store ! 0) (arrays diamond_store ! 0)" by code_simp
  have donce: "outcome (fill_ancestors diamond_store 0 0 True)
                 = Inr \<lparr>n_classes = 3, cells = [[1, 1, 1]]\<rparr>"
    by code_simp
  from fill_ancestors_idempotent[OF h1 h2 h3 h4] fill_ancestors_idempotent[OF d1 d2 d3 d4]
    once donce h1 h2 h3 h4 d1 d2 d3 d4
  show ?thesis by simp
qed

text \<open>
  Claim C6.  For every binary matrix and every graph, with or without copying, the
  matrix returned by \<open>fill_ancestors\<close> has the shape of the input and is
  greater than or equal to it cell by cell; every cell that is 1 in the input is 1 in the
  result.
\<close>

theorem fill_ancestors_monotone:
  assumes "y < length (arrays s)" "valid_array (arrays s ! y)" "binary (arrays s ! y)"
      and "fill_ancestors s y g copy = (s', Inr y')"
  shows "n_samples (arrays s' ! y') = n_samples (arrays s ! y)
       \<and> n_classes (arrays s' ! y') = n_classes (arrays s ! y)
       \<and> (\<forall>i<n_samples (arrays s ! y). \<forall>j<n_classes (arrays s ! y).
            cell (arrays s ! y) i j \<le> cell (arrays s' ! y') i j
          \<and> (cell (arrays s ! y) i j = 1 \<longrightarrow> cell (arrays s' ! y') i j = 1))"
proof -
  let ?a = "arrays s ! y"
  have r: "raised ?a (arrays s' ! y')"
  proof (cases copy)
    case True
    let ?s1 = "s\<lparr>arrays := arrays s @ [?a]\<rparr>"
    have "raised (arrays ?s1 ! length (arrays s))
            (arrays (fst (fill_loop y (length (arrays s)) ?s1 (all_pairs_shortest_path_length (graphs s ! g)))) ! length (arrays s))"
      by (rule fill_loop_raised) simp
    moreover have "s' = fst (fill_loop y (length (arrays s)) ?s1 (all_pairs_shortest_path_length (graphs s ! g)))"
      and "y' = length (arrays s)"
      using assms(4) True by (auto simp: fill_ancestors_True split: option.splits)
    ultimately show ?thesis by simp
  next
    case False
    have "raised (arrays s ! y) (arrays (fst (fill_loop y y s (all_pairs_shortest_path_length (graphs s ! g)))) ! y)"
      using assms(1) by (rule fill_loop_raised)
    moreover have "s' = fst (fill_loop y y s (all_pairs_shortest_path_length (graphs s ! g)))" and "y' = y"
      using assms(4) False by (auto simp: fill_ancestors_False split: option.splits)
    ultimately show ?thesis by simp
  qed
  have "cell ?a i j \<le> cell (arrays s' ! y') i j \<and> (cell ?a i j = 1 \<longrightarrow> cell (arrays s' ! y') i j = 1)"
    if "i < n_samples ?a" "j < n_classes ?a" for i j
  proof -
    from r that have "cell (arrays s' ! y') i j = cell ?a i j \<or> cell (arrays s' ! y') i j = 1"
      by (simp add: raised_def)
    moreover have "cell ?a i j = 0 \<or> cell ?a i j = 1"
      using binary_cell[OF assms(3,2) that] .
    ultimately show ?thesis by auto
  qed
  with r show ?thesis by (simp add: raised_def)
qed

theorem fill_ancestors_monotone_witness:
  "0 < length (arrays chain_store) \<and> valid_array (arrays chain_store ! 0)
   \<and> binary (arrays chain_store ! 0)
   \<and> fill_ancestors chain_store 0 0 False
       = (chain_store\<lparr>arrays := (arrays chain_store)[0 := \<lparr>n_classes = 2, cells = [[1, 1]]\<rparr>]\<rparr>, Inr 0)
   \<and> cell (arrays chain_store ! 0) 0 0
        \<le> cell (arrays (chain_store\<lparr>arrays := (arrays chain_store)[0 := \<lparr>n_classes = 2, cells = [[1, 1]]\<rparr>]\<rparr>) ! 0) 0 0
   \<and> cell (arrays chain_store ! 0) 0 1
        \<le> cell (arrays (chain_store\<lparr>arrays := (arrays chain_store)[0 := \<lparr>n_classes = 2, cells = [[1, 1]]\<rparr>]\<rparr>) ! 0) 0 1"
proof -
  let ?s' = "chain_store\<lparr>arrays := (arrays chain_store)[0 := \<lparr>n_classes = 2, cells = [[1, 1]]\<rparr>]\<rparr>"
  have h1: "0 < length (arrays chain_store)" by (simp add: chain_store_def)
  have h2: "valid_array (arrays chain_store ! 0)" by code_simp
  have h3: "binary (arrays chain_store ! 0)" by code_simp
  have h4: "fill_ancestors chain_store 0 0 False = (?s', Inr 0)" by code_simp
  have n: "(0::nat) < n_samples (arrays chain_store ! 0)" "(0::nat) < n_classes (arrays chain_store ! 0)"
    "(1::nat) < n_classes (arrays chain_store ! 0)"
    by (simp_all add: chain_store_def n_samples_def)
  from fill_ancestors_monotone[OF h1 h2 h3 h4] n
  have "cell (arrays chain_store ! 0) 0 0 \<le> cell (arrays ?s' ! 0) 0 0"
    and "cell (arrays chain_store ! 0) 0 1 \<le> cell (arrays ?s' ! 0) 0 1"
    by blast+
  with h1 h2 h3 h4 show ?thesis by blast
qed

text \<open>
  Claim C7.  The denominators are not guarded.  When both matrices fill and compare and
  the filled predicted matrix has no nonzero entry, \<open>h_precision_score\<close> ends
  in the division error; when the filled true matrix has none, so does
  \<open>h_recall_score\<close>; and when precision and recall are returned and
  \<open>beta^2 * hP + hR\<close> is zero, so does \<open>h_fbeta_score\<close>, unless
  \<open>beta\<close> is so large that the power \<open>beta ** 2.\<close> has raised its
  overflow error before the division.  No default value stands in.
\<close>

theorem zero_denominators_raise:
  assumes "y_true < length (arrays s)" "y_pred < length (arrays s)"
  shows "(snd (fill_ancestors s y_true g True) = Inr t \<and> snd (fill_ancestors s y_pred g True) = Inr p
          \<and> count_both_nonzero (arrays (fst (fill_ancestors s y_true g True)) ! t)
                                (arrays (fst (fill_ancestors s y_pred g True)) ! p) = Inr tp
          \<and> count_nonzero (arrays (fst (fill_ancestors s y_pred g True)) ! p) = 0
          \<longrightarrow> snd (h_precision_score s y_true y_pred g) = Inl ZeroDivisionError)
       \<and> (snd (fill_ancestors s y_true g True) = Inr t \<and> snd (fill_ancestors s y_pred g True) = Inr p
          \<and> count_both_nonzero (arrays (fst (fill_ancestors s y_true g True)) ! t)
                                (arrays (fst (fill_ancestors s y_pred g True)) ! p) = Inr tp
          \<and> count_nonzero (arrays (fst (fill_ancestors s y_true g True)) ! t) = 0
          \<longrightarrow> snd (h_recall_score s y_true y_pred g) = Inl ZeroDivisionError)
       \<and> (snd (h_precision_score s y_true y_pred g) = Inr hP
          \<and> snd (h_recall_score s y_true y_pred g) = Inr hR \<and> beta\<^sup>2 * hP + hR = 0
          \<longrightarrow> snd (h_fbeta_score s y_true y_pred g beta)
                = Inl (if beta\<^sup>2 \<le> float_max then ZeroDivisionError else OverflowError))"
proof (intro conjI impI)
  let ?T = "filled (arrays s ! y_true) (graphs s ! g)" and ?P = "filled (arrays s ! y_pred) (graphs s ! g)"
  have ft: "snd (fill_ancestors s y_true g True) = Inr t \<Longrightarrow>
      snd ?T = None \<and> arrays (fst (fill_ancestors s y_true g True)) ! t = fst ?T" for t
    by (auto simp: fill_ancestors_copy[OF assms(1)] split: option.splits)
  have fp: "snd (fill_ancestors s y_pred g True) = Inr p \<Longrightarrow>
      snd ?P = None \<and> arrays (fst (fill_ancestors s y_pred g True)) ! p = fst ?P" for p
    by (auto simp: fill_ancestors_copy[OF assms(2)] split: option.splits)
  {
    assume a: "snd (fill_ancestors s y_true g True) = Inr t \<and> snd (fill_ancestors s y_pred g True) = Inr p
          \<and> count_both_nonzero (arrays (fst (fill_ancestors s y_true g True)) ! t)
                                (arrays (fst (fill_ancestors s y_pred g True)) ! p) = Inr tp
          \<and> count_nonzero (arrays (fst (fill_ancestors s y_pred g True)) ! p) = 0"
    with ft[of t] fp[of p] have "snd ?T = None" "snd ?P = None"
      "count_both_nonzero (fst ?T) (fst ?P) = Inr tp" "count_nonzero (fst ?P) = 0" by auto
    then show "snd (h_precision_score s y_true y_pred g) = Inl ZeroDivisionError"
      by (simp add: h_precision_score_value(1)[OF assms] on_filled_def precision_value_def)
  }
  {
    assume a: "snd (fill_ancestors s y_true g True) = Inr t \<and> snd (fill_ancestors s y_pred g True) = Inr p
          \<and> count_both_nonzero (arrays (fst (fill_ancestors s y_true g True)) ! t)
                                (arrays (fst (fill_ancestors s y_pred g True)) ! p) = Inr tp
          \<and> count_nonzero (arrays (fst (fill_ancestors s y_true g True)) ! t) = 0"
    with ft[of t] fp[of p] have "snd ?T = None" "snd ?P = None"
      "count_both_nonzero (fst ?T) (fst ?P) = Inr tp" "count_nonzero (fst ?T) = 0" by auto
    then show "snd (h_recall_score s y_true y_pred g) = Inl ZeroDivisionError"
      by (simp add: h_recall_score_value(1)[OF assms] on_filled_def recall_value_def)
  }
  {
    assume a: "snd (h_precision_score s y_true y_pred g) = Inr hP
          \<and> snd (h_recall_score s y_true y_pred g) = Inr hR \<and> beta\<^sup>2 * hP + hR = 0"
    show "snd (h_fbeta_score s y_true y_pred g beta)
            = Inl (if beta\<^sup>2 \<le> float_max then ZeroDivisionError else OverflowError)"
      using a by (simp add: h_fbeta_score_value[OF assms] not_le)
  }
qed

theorem zero_denominators_raise_witness:
  "snd (fill_ancestors unlabelled_store 0 0 True) = Inr 2
   \<and> snd (fill_ancestors unlabelled_store 1 0 True) = Inr 2
   \<and> count_both_nonzero (arrays (fst (fill_ancestors unlabelled_store 0 0 True)) ! 2)
                         (arrays (fst (fill_ancestors unlabelled_store 1 0 True)) ! 2) = Inr 0
   \<and> count_nonzero (arrays (fst (fill_ancestors unlabelled_store 1 0 True)) ! 2) = 0
   \<and> snd (h_precision_score unlabelled_store 0 1 0) = Inl ZeroDivisionError
   \<and> snd (h_recall_score unlabelled_store 1 0 0) = Inl ZeroDivisionError
   \<and> snd (h_precision_score fork_store 0 1 0) = Inr 0
   \<and> snd (h_recall_score fork_store 0 1 0) = Inr 0
   \<and> snd (h_fbeta_score fork_store 0 1 0 1) = Inl ZeroDivisionError
   \<and> snd (h_fbeta_score fork_store 0 1 0 (10 ^ 200)) = Inl OverflowError"
proof -
  have r: "0 < length (arrays unlabelled_store)" "1 < length (arrays unlabelled_store)"
    "0 < length (arrays fork_store)" "1 < length (arrays fork_store)"
    by (simp_all add: unlabelled_store_def fork_store_def)
  have a: "snd (fill_ancestors unlabelled_store 0 0 True) = Inr 2"
    "snd (fill_ancestors unlabelled_store 1 0 True) = Inr 2"
    "count_both_nonzero (arrays (fst (fill_ancestors unlabelled_store 0 0 True)) ! 2)
                         (arrays (fst (fill_ancestors unlabelled_store 1 0 True)) ! 2) = Inr 0"
    "count_nonzero (arrays (fst (fill_ancestors unlabelled_store 1 0 True)) ! 2) = 0"
    by code_simp+
  have b: "count_both_nonzero (arrays (fst (fill_ancestors unlabelled_store 1 0 True)) ! 2)
                         (arrays (fst (fill_ancestors unlabelled_store 0 0 True)) ! 2) = Inr 0"
    by code_simp
  have c: "snd (h_precision_score fork_store 0 1 0) = Inr 0"
    "snd (h_recall_score fork_store 0 1 0) = Inr 0"
    by code_simp+
  have z: "(1::real)\<^sup>2 * 0 + 0 = 0" "((10::real) ^ 200)\<^sup>2 * 0 + 0 = 0"
    by simp_all
  have f: "(1::real)\<^sup>2 \<le> float_max" "\<not> ((10::real) ^ 200)\<^sup>2 \<le> float_max"
    using one_in_float_range large_beta_out_of_float_range by simp_all
  have "snd (h_precision_score unlabelled_store 0 1 0) = Inl ZeroDivisionError"
    using zero_denominators_raise[OF r(1,2), of 0 2 2 0] a by blast
  moreover have "snd (h_recall_score unlabelled_store 1 0 0) = Inl ZeroDivisionError"
    using zero_denominators_raise[OF r(2,1), of 0 2 2 0] a b by blast
  moreover have "snd (h_fbeta_score fork_store 0 1 0 1) = Inl ZeroDivisionError"
    using zero_denominators_raise[OF r(3,4), of 0 _ _ _ 0 0 1] c z(1) f(1)
    by (simp only: simp_thms if_True)
  moreover have "snd (h_fbeta_score fork_store 0 1 0 (10 ^ 200)) = Inl OverflowError"
    using zero_denominators_raise[OF r(3,4), of 0 _ _ _ 0 0 "10 ^ 200"] c z(2) f(2)
    by (simp only: simp_thms if_False)
  ultimately show ?thesis using a c by blast
qed

text \<open>
  Claim C8.  On the chain \<open>Root -> A -> B\<close> with one sample, true label set
  \<open>{B}\<close> and predicted label set \<open>{A}\<close>: the filled true row is
  \<open>{A, B}\<close>, the filled predicted row is \<open>{A}\<close>, the hierarchical
  precision is 1, the recall is 1/2 and the F-beta score for beta = 1 is
  \<open>2 * 1 * (1/2) / (1 + 1/2) = 2/3\<close>.
\<close>

theorem ancestor_credit_case:
  "fill_ancestors chain_store 0 0 True
     = (chain_store\<lparr>arrays := arrays chain_store @ [\<lparr>n_classes = 2, cells = [[1, 1]]\<rparr>]\<rparr>, Inr 2)
   \<and> fill_ancestors chain_store 1 0 True
     = (chain_store\<lparr>arrays := arrays chain_store @ [\<lparr>n_classes = 2, cells = [[1, 0]]\<rparr>]\<rparr>, Inr 2)
   \<and> snd (h_precision_score chain_store 0 1 0) = Inr 1
   \<and> snd (h_recall_score chain_store 0 1 0) = Inr (1 / 2)
   \<and> snd (h_fbeta_score chain_store 0 1 0 1) = Inr (2 * 1 * (1 / 2) / (1 + 1 / 2))
   \<and> snd (h_fbeta_score chain_store 0 1 0 1) = Inr (2 / 3)"
proof -
  have r: "0 < length (arrays chain_store)" "1 < length (arrays chain_store)"
    by (simp_all add: chain_store_def)
  have f: "fill_ancestors chain_store 0 0 True
     = (chain_store\<lparr>arrays := arrays chain_store @ [\<lparr>n_classes = 2, cells = [[1, 1]]\<rparr>]\<rparr>, Inr 2)"
    "fill_ancestors chain_store 1 0 True
     = (chain_store\<lparr>arrays := arrays chain_store @ [\<lparr>n_classes = 2, cells = [[1, 0]]\<rparr>]\<rparr>, Inr 2)"
    by code_simp+
  have p: "snd (h_precision_score chain_store 0 1 0) = Inr 1" by code_simp
  have q: "snd (h_recall_score chain_store 0 1 0) = Inr (1 / 2)" by code_simp
  have "snd (h_fbeta_score chain_store 0 1 0 1) = Inr (2 / 3)"
    unfolding h_fbeta_score_value[OF r] p q using one_in_float_range by simp
  with f p q show ?thesis by simp
qed

text \<open>
  Claim C9.  When \<open>h_precision_score\<close> and \<open>h_recall_score\<close>, each
  called on its own with the same arguments, return \<open>hP\<close> and \<open>hR\<close>,
  the square of \<open>beta\<close> is in the range of the floats and the denominator is
  not zero, \<open>h_fbeta_score\<close> returns
  \<open>(1 + beta^2) * hP * hR / (beta^2 * hP + hR)\<close>; for \<open>beta = 1\<close>
  this is \<open>2 * hP * hR / (hP + hR)\<close>.
\<close>

theorem h_fbeta_score_formula:
  assumes "y_true < length (arrays s)" "y_pred < length (arrays s)"
    and "snd (h_precision_score s y_true y_pred g) = Inr hP"
    and "snd (h_recall_score s y_true y_pred g) = Inr hR"
    and "beta\<^sup>2 \<le> float_max" "beta\<^sup>2 * hP + hR \<noteq> 0"
  shows "snd (h_fbeta_score s y_true y_pred g beta)
           = Inr ((1 + beta\<^sup>2) * hP * hR / (beta\<^sup>2 * hP + hR))
       \<and> (beta = 1 \<longrightarrow> snd (h_fbeta_score s y_true y_pred g beta) = Inr (2 * hP * hR / (hP + hR)))"
proof -
  have "snd (h_fbeta_score s y_true y_pred g beta)
           = Inr ((1 + beta\<^sup>2) * hP * hR / (beta\<^sup>2 * hP + hR))"
    using assms(3-6) by (simp add: h_fbeta_score_value[OF assms(1,2)])
  then show ?thesis by auto
qed

theorem h_fbeta_score_formula_witness:
  "0 < length (arrays chain_store) \<and> 1 < length (arrays chain_store)
   \<and> snd (h_precision_score chain_store 0 1 0) = Inr 1
   \<and> snd (h_recall_score chain_store 0 1 0) = Inr (1 / 2)
   \<and> (1::real)\<^sup>2 \<le> float_max
   \<and> (1::real)\<^sup>2 * 1 + 1 / 2 \<noteq> 0
   \<and> snd (h_fbeta_score chain_store 0 1 0 1) = Inr ((1 + 1\<^sup>2) * 1 * (1 / 2) / (1\<^sup>2 * 1 + 1 / 2))
   \<and> snd (h_fbeta_score chain_store 0 1 0 1) = Inr (2 * 1 * (1 / 2) / (1 + 1 / 2))"
proof -
  have h: "0 < length (arrays chain_store)" "1 < length (arrays chain_store)"
    by (simp_all add: chain_store_def)
  have p: "snd (h_precision_score chain_store 0 1 0) = Inr 1" by code_simp
  have r: "snd (h_recall_score chain_store 0 1 0) = Inr (1 / 2)" by code_simp
  have m: "(1::real)\<^sup>2 \<le> float_max" using one_in_float_range by simp
  have d: "(1::real)\<^sup>2 * 1 + 1 / 2 \<noteq> 0" by simp
  from h_fbeta_score_formula[OF h p r m d] h p r m d show ?thesis by blast
qed

text \<open>
  Claim C10.  Swap duality: for any two matrices of the store and any graph, the
  hierarchical precision of \<open>(a, b)\<close> is the hierarchical recall of
  \<open>(b, a)\<close>, the errors included.
\<close>

theorem precision_recall_swap:
  assumes "a < length (arrays s)" "b < length (arrays s)"
  shows "snd (h_precision_score s a b g) = snd (h_recall_score s b a g)"
proof -
  let ?A = "filled (arrays s ! a) (graphs s ! g)" and ?B = "filled (arrays s ! b) (graphs s ! g)"
  have "on_filled precision_value ?A ?B = on_filled recall_value ?B ?A"
    by (auto simp: on_filled_def precision_recall_value split: option.splits dest!: filled_error)
  then show ?thesis
    by (simp add: h_precision_score_value(1)[OF assms] h_recall_score_value(1)[OF assms(2,1)])
qed

theorem precision_recall_swap_witness:
  "0 < length (arrays chain_store) \<and> 1 < length (arrays chain_store)
   \<and> snd (h_precision_score chain_store 0 1 0) = snd (h_recall_score chain_store 1 0 0)"
proof -
  have h: "0 < length (arrays chain_store)" "1 < length (arrays chain_store)"
    by (simp_all add: chain_store_def)
  from precision_recall_swap[OF h, of 0] h show ?thesis by blast
qed

end
